theory Spec2Isabelle
  imports Main "HOL-Library.Sublist"
begin

section \<open>Query engine: \<^verbatim>\<open>src/server/_query.py\<close>\<close>

subsection \<open>Decimal rendering of integers\<close>

text \<open>
  Python's \<^verbatim>\<open>str(i)\<close> / \<^verbatim>\<open>f"{i}"\<close> on a non-negative integer: its decimal digits,
  most significant first, no leading zero (except for 0 itself).
\<close>

definition digit_char :: "nat \<Rightarrow> char" where
  "digit_char d = ''0123456789'' ! d"

fun str_nat :: "nat \<Rightarrow> string" where
  "str_nat n = (if n < 10 then [digit_char n] else str_nat (n div 10) @ [digit_char (n mod 10)])"

declare str_nat.simps [simp del]

text \<open>
  \<^verbatim>\<open>"{0:0Wd}".format(n)\<close>: sign first, then zeros up to a total width of \<open>W\<close>.
\<close>

definition format_0d :: "nat \<Rightarrow> int \<Rightarrow> string" where
  "format_0d w n =
     (if n < 0
      then CHR ''-'' # replicate (w - 1 - length (str_nat (nat (- n)))) CHR ''0'' @ str_nat (nat (- n))
      else replicate (w - length (str_nat (nat n))) CHR ''0'' @ str_nat (nat n))"

text \<open>
  \<^verbatim>\<open>int(value / d)\<close>: true division followed by truncation towards zero. The
  quotient goes through a float in the source. The exact quotient written here is what
  the source computes for every \<open>|value| < 2^53\<close>, which covers all 8-digit dates;
  from there on the source rounds the quotient (and raises \<^verbatim>\<open>OverflowError\<close> beyond
  the range of a float), so \<open>date_string\<close> stands for the source on
  \<open>|value| < 2^53\<close> only.
\<close>

definition int_truediv :: "int \<Rightarrow> int \<Rightarrow> int" where
  "int_truediv a d = (if 0 \<le> a then a div d else - ((- a) div d))"

definition date_string :: "int \<Rightarrow> string" where
  "date_string v =
     (let year = int_truediv v 10000 mod 10000;
          month = int_truediv v 100 mod 100;
          day = v mod 100
      in format_0d 4 year @ ''-'' @ format_0d 2 month @ ''-'' @ format_0d 2 day)"

subsection \<open>Filter clauses\<close>

text \<open>
  A filter value is a scalar or a list/tuple (\<^verbatim>\<open>isinstance(value, (list, tuple))\<close>), of
  which the source reads elements 0 and 1. Bound values live in a dictionary
  \<^verbatim>\<open>params\<close> that the source mutates; the model returns the new dictionary together
  with the result, also when an index is out of range.
\<close>

datatype 'a filter_value = Scalar 'a | Tuple "'a list"

datatype query_error = IndexError | TypeError | ValueError

datatype sql_value = SqlInt int | SqlStr string

type_synonym 'b params = "string \<rightharpoonup> 'b"

definition to_condition ::
  "string \<Rightarrow> 'a filter_value \<Rightarrow> string \<Rightarrow> 'b params \<Rightarrow> ('a \<Rightarrow> 'b) \<Rightarrow> (query_error + string) \<times> 'b params"
where
  "to_condition field v param_key params formatter =
     (case v of
        Tuple vs \<Rightarrow>
          (case vs of
             [] \<Rightarrow> (Inl IndexError, params)
           | v0 # rest \<Rightarrow>
               (let params1 = params(param_key \<mapsto> formatter v0) in
                case rest of
                  [] \<Rightarrow> (Inl IndexError, params1)
                | v1 # _ \<Rightarrow>
                    (Inr (field @ '' BETWEEN :'' @ param_key @ '' AND :'' @ param_key @ ''_2''),
                     params1(param_key @ ''_2'' \<mapsto> formatter v1))))
      | Scalar x \<Rightarrow> (Inr (field @ '' = :'' @ param_key), params(param_key \<mapsto> formatter x)))"

text \<open>
  The list comprehension of \<^verbatim>\<open>filter_values\<close>:
  \<^verbatim>\<open>[to_condition(field, v, f"{param_key}_{i}", params, formatter) for i, v in enumerate(values)]\<close>,
  with \<open>i\<close> the running index; \<open>indexed_key\<close> is the f-string \<^verbatim>\<open>f"{param_key}_{i}"\<close>.
  An exception stops the comprehension.
\<close>

definition indexed_key :: "string \<Rightarrow> nat \<Rightarrow> string" where
  "indexed_key param_key i = param_key @ ''_'' @ str_nat i"

fun conditions ::
  "string \<Rightarrow> nat \<Rightarrow> 'a filter_value list \<Rightarrow> string \<Rightarrow> 'b params \<Rightarrow> ('a \<Rightarrow> 'b)
     \<Rightarrow> (query_error + string list) \<times> 'b params"
where
  "conditions field i [] param_key params formatter = (Inr [], params)"
| "conditions field i (v # vs) param_key params formatter =
     (case to_condition field v (indexed_key param_key i) params formatter of
        (Inl e, params1) \<Rightarrow> (Inl e, params1)
      | (Inr c, params1) \<Rightarrow>
          (case conditions field (Suc i) vs param_key params1 formatter of
             (Inl e, params2) \<Rightarrow> (Inl e, params2)
           | (Inr cs, params2) \<Rightarrow> (Inr (c # cs), params2)))"

text \<open>\<^verbatim>\<open>sep.join(xs)\<close>\<close>

fun join :: "string \<Rightarrow> string list \<Rightarrow> string" where
  "join sep [] = []"
| "join sep [x] = x"
| "join sep (x # y # ys) = x @ sep @ join sep (y # ys)"

definition filter_values ::
  "string \<Rightarrow> 'a filter_value list \<Rightarrow> string \<Rightarrow> 'b params \<Rightarrow> ('a \<Rightarrow> 'b) \<Rightarrow> (query_error + string) \<times> 'b params"
where
  "filter_values field vals param_key params formatter =
     (case conditions field 0 vals param_key params formatter of
        (Inl e, params1) \<Rightarrow> (Inl e, params1)
      | (Inr cs, params1) \<Rightarrow> (Inr (''('' @ join '' OR '' cs @ '')''), params1))"

text \<open>
  The three instances. The default formatter \<^verbatim>\<open>lambda x: x\<close> stores the value as it
  is: a string for \<^verbatim>\<open>filter_strings\<close>, an integer for \<^verbatim>\<open>filter_integers\<close>;
  \<^verbatim>\<open>filter_dates\<close> stores the string that \<^verbatim>\<open>date_string\<close> makes of the integer.
\<close>

definition filter_strings ::
  "string \<Rightarrow> string filter_value list \<Rightarrow> string \<Rightarrow> sql_value params \<Rightarrow> (query_error + string) \<times> sql_value params"
where
  "filter_strings field vals param_key params = filter_values field vals param_key params SqlStr"

definition filter_integers ::
  "string \<Rightarrow> int filter_value list \<Rightarrow> string \<Rightarrow> sql_value params \<Rightarrow> (query_error + string) \<times> sql_value params"
where
  "filter_integers field vals param_key params = filter_values field vals param_key params SqlInt"

definition filter_dates ::
  "string \<Rightarrow> int filter_value list \<Rightarrow> string \<Rightarrow> sql_value params \<Rightarrow> (query_error + string) \<times> sql_value params"
where
  "filter_dates field vals param_key params =
     filter_values field vals param_key params (\<lambda>v. SqlStr (date_string v))"

subsection \<open>What a call is expected to produce\<close>

text \<open>
  The vocabulary of the statements about \<^verbatim>\<open>filter_values\<close>: the predicate for one
  value, the names one value binds, and the names a whole call binds (in order). A value is well formed when it is a
  scalar or a pair.
\<close>

fun predicate :: "string \<Rightarrow> string \<Rightarrow> 'a filter_value \<Rightarrow> string" where
  "predicate field k (Scalar x) = field @ '' = :'' @ k"
| "predicate field k (Tuple vs) = field @ '' BETWEEN :'' @ k @ '' AND :'' @ k @ ''_2''"

fun bound_names :: "string \<Rightarrow> 'a filter_value \<Rightarrow> string list" where
  "bound_names k (Scalar x) = [k]"
| "bound_names k (Tuple vs) = [k, k @ ''_2'']"

fun well_formed :: "'a filter_value \<Rightarrow> bool" where
  "well_formed (Scalar x) = True"
| "well_formed (Tuple vs) = (length vs = 2)"

definition names_from :: "string \<Rightarrow> nat \<Rightarrow> 'a filter_value list \<Rightarrow> string list" where
  "names_from param_key i vals =
     concat (map (\<lambda>(j, v). bound_names (indexed_key param_key j) v) (enumerate i vals))"

definition generated_names :: "string \<Rightarrow> 'a filter_value list \<Rightarrow> string list" where
  "generated_names param_key vals = names_from param_key 0 vals"

definition predicates :: "string \<Rightarrow> string \<Rightarrow> nat \<Rightarrow> 'a filter_value list \<Rightarrow> string list" where
  "predicates field param_key i vals =
     map (\<lambda>(j, v). predicate field (indexed_key param_key j) v) (enumerate i vals)"

text \<open>The value bound under each name that a well-formed value generates.\<close>

fun binding_holds :: "'b params \<Rightarrow> ('a \<Rightarrow> 'b) \<Rightarrow> string \<Rightarrow> 'a filter_value \<Rightarrow> bool" where
  "binding_holds p formatter k (Scalar x) = (p k = Some (formatter x))"
| "binding_holds p formatter k (Tuple vs) =
     (p k = Some (formatter (vs ! 0)) \<and> p (k @ ''_2'') = Some (formatter (vs ! 1)))"

subsection \<open>Row parsing\<close>

text \<open>
  A raw result row maps a column name to its value; the value \<open>None\<close> is Python's
  \<^verbatim>\<open>None\<close> (an SQL NULL), so \<open>row f = None\<close> says that the column is absent
  (\<^verbatim>\<open>f not in row\<close>) and \<open>row f = Some None\<close> that it is present and null.
  \<^verbatim>\<open>row.get(f)\<close> is \<^verbatim>\<open>None\<close> for an absent column.
\<close>

type_synonym 'v row = "string \<rightharpoonup> 'v option"

definition row_get :: "'v row \<Rightarrow> string \<Rightarrow> 'v option" where
  "row_get row f = (case row f of None \<Rightarrow> None | Some x \<Rightarrow> x)"

text \<open>
  The builtins \<^verbatim>\<open>int(x)\<close> and \<^verbatim>\<open>float(x)\<close> raise \<^verbatim>\<open>TypeError\<close> on \<^verbatim>\<open>None\<close>. What
  they do on any other value (parse a string, truncate a float, raise
  \<^verbatim>\<open>ValueError\<close>) is a parameter \<open>conv\<close> of the model.
\<close>

definition coerce :: "('v \<Rightarrow> query_error + 'v) \<Rightarrow> 'v option \<Rightarrow> query_error + 'v" where
  "coerce conv x = (case x of None \<Rightarrow> Inl TypeError | Some v \<Rightarrow> conv v)"

text \<open>\<^verbatim>\<open>for f in fields_string: parsed[f] = row.get(f)\<close>\<close>

fun parse_strings :: "'v row \<Rightarrow> string list \<Rightarrow> 'v row \<Rightarrow> 'v row" where
  "parse_strings row [] parsed = parsed"
| "parse_strings row (f # fs) parsed = parse_strings row fs (parsed(f \<mapsto> row_get row f))"

text \<open>
  \<^verbatim>\<open>for f in fields_int: parsed[f] = int(row.get(f)) if f in row else None\<close>, and the
  same loop with \<^verbatim>\<open>float\<close>. The first exception ends the call.
\<close>

fun parse_coerced ::
  "('v \<Rightarrow> query_error + 'v) \<Rightarrow> 'v row \<Rightarrow> string list \<Rightarrow> 'v row \<Rightarrow> query_error + 'v row"
where
  "parse_coerced conv row [] parsed = Inr parsed"
| "parse_coerced conv row (f # fs) parsed =
     (case row f of
        None \<Rightarrow> parse_coerced conv row fs (parsed(f \<mapsto> None))
      | Some _ \<Rightarrow>
          (case coerce conv (row_get row f) of
             Inl e \<Rightarrow> Inl e
           | Inr y \<Rightarrow> parse_coerced conv row fs (parsed(f \<mapsto> Some y))))"

text \<open>
  \<^verbatim>\<open>if fields_string:\<close> and its siblings: an argument that is \<^verbatim>\<open>None\<close> or empty is
  skipped.
\<close>

definition truthy :: "string list option \<Rightarrow> bool" where
  "truthy flds = (case flds of None \<Rightarrow> False | Some fs \<Rightarrow> fs \<noteq> [])"

definition parse_row ::
  "('v \<Rightarrow> query_error + 'v) \<Rightarrow> ('v \<Rightarrow> query_error + 'v) \<Rightarrow> 'v row
     \<Rightarrow> string list option \<Rightarrow> string list option \<Rightarrow> string list option \<Rightarrow> query_error + 'v row"
where
  "parse_row to_int to_float row fields_string fields_int fields_float =
     (let parsed0 = Map.empty;
          parsed1 = (if truthy fields_string then parse_strings row (the fields_string) parsed0
                     else parsed0)
      in case (if truthy fields_int then parse_coerced to_int row (the fields_int) parsed1
               else Inr parsed1) of
           Inl e \<Rightarrow> Inl e
         | Inr parsed2 \<Rightarrow>
             (if truthy fields_float then parse_coerced to_float row (the fields_float) parsed2
              else Inr parsed2))"

text \<open>The fields an argument declares (none when it is \<^verbatim>\<open>None\<close>).\<close>

definition declared :: "string list option \<Rightarrow> string set" where
  "declared flds = (case flds of None \<Rightarrow> {} | Some fs \<Rightarrow> set fs)"

section \<open>Security layer: \<^verbatim>\<open>src/server/_security.py\<close>\<close>

subsection \<open>Requests and users\<close>

text \<open>
  What the module reads of the Flask request: \<^verbatim>\<open>request.values\<close> (a multi-dict
  over the query string and the form; \<^verbatim>\<open>n in values\<close> and \<^verbatim>\<open>values[n]\<close>, which is
  the first value of \<open>n\<close>), \<^verbatim>\<open>request.authorization\<close>, \<^verbatim>\<open>request.headers\<close> and
  \<^verbatim>\<open>request.path\<close>.
\<close>

record authorization =
  username :: "string option"
  password :: "string option"

record request =
  request_values :: "(string \<times> string) list"
  request_authorization :: "authorization option"
  request_headers :: "string \<rightharpoonup> string"
  request_path :: string

text \<open>
  Modelled from the spec: \<^verbatim>\<open>User\<close> and \<^verbatim>\<open>User.has_role\<close> of \<^verbatim>\<open>admin/models.py\<close>, which
  is not among the sources. A user has an API key and zero or more role memberships;
  \<^verbatim>\<open>has_role(role_name)\<close> tells whether the role is one of them. A missing user (an
  anonymous caller) is \<open>None\<close>.
\<close>

record user =
  api_key :: string
  roles :: "string list"

definition has_role :: "user \<Rightarrow> string \<Rightarrow> bool" where
  "has_role u required_role = (required_role \<in> set (roles u))"

subsection \<open>Token resolution\<close>

text \<open>\<^verbatim>\<open>for n in (...): if n in request.values: return request.values[n]\<close>\<close>

fun first_param :: "string list \<Rightarrow> (string \<times> string) list \<Rightarrow> string option" where
  "first_param [] values = None"
| "first_param (n # ns) values =
     (case map_of values n of Some v \<Rightarrow> Some v | None \<Rightarrow> first_param ns values)"

text \<open>\<^verbatim>\<open>s.startswith(p)\<close>\<close>

definition startswith :: "string \<Rightarrow> string \<Rightarrow> bool" where
  "startswith s p = (take (length p) s = p)"

definition bearer_token :: "request \<Rightarrow> string option" where
  "bearer_token request =
     (case request_headers request ''Authorization'' of
        None \<Rightarrow> None
      | Some auth_header \<Rightarrow>
          if auth_header \<noteq> [] \<and> startswith auth_header ''Bearer ''
          then Some (drop (length ''Bearer '') auth_header)
          else None)"

definition resolve_auth_token :: "request \<Rightarrow> string option" where
  "resolve_auth_token request =
     (case first_param [''auth'', ''api_key'', ''token''] (request_values request) of
        Some v \<Rightarrow> Some v
      | None \<Rightarrow>
          (case request_authorization request of
             None \<Rightarrow> bearer_token request
           | Some a \<Rightarrow>
               if username a = Some ''epidata'' then password a else bearer_token request))"

subsection \<open>The current user\<close>

text \<open>
  \<^verbatim>\<open>_get_current_user\<close>: the user is looked up once per request and kept in the
  request context \<^verbatim>\<open>g\<close> (here the slot \<^verbatim>\<open>g.user\<close>, \<open>None\<close> while it is unset).
  \<^verbatim>\<open>User.find_user\<close> is a database lookup outside the sources: a parameter.
  \<^verbatim>\<open>current_user\<close> is the proxy for the value this returns.
\<close>

definition get_current_user ::
  "(string option \<Rightarrow> user option) \<Rightarrow> request \<Rightarrow> user option option \<Rightarrow> user option \<times> user option option"
where
  "get_current_user find_user request g =
     (case g of
        None \<Rightarrow> (let u = find_user (resolve_auth_token request) in (u, Some u))
      | Some u \<Rightarrow> (u, g))"

definition current_user ::
  "(string option \<Rightarrow> user option) \<Rightarrow> request \<Rightarrow> user option option \<Rightarrow> user option"
where
  "current_user find_user request g = fst (get_current_user find_user request g)"

subsection \<open>The deprecation schedule\<close>

text \<open>
  A \<^verbatim>\<open>datetime.date\<close> is its proleptic Gregorian ordinal, from 1 (\<^verbatim>\<open>date.min\<close>) to
  3652059 (\<^verbatim>\<open>date.max\<close>); dates compare as their ordinals do. \<^verbatim>\<open>d - timedelta(days=n)\<close>
  raises \<^verbatim>\<open>OverflowError\<close> when the result leaves that range.
\<close>

type_synonym date = int

datatype security_error = OverflowError | Unauthorized

definition date_min :: date where "date_min = 1"

definition date_max :: date where "date_max = 3652059"

definition date_minus_days :: "date \<Rightarrow> int \<Rightarrow> security_error + date" where
  "date_minus_days d n =
     (if date_min \<le> d - n \<and> d - n \<le> date_max then Inr (d - n) else Inl OverflowError)"

text \<open>
  The module's constants, computed when it is imported from the configured
  \<^verbatim>\<open>API_KEY_REQUIRED_STARTING_AT\<close> (of \<^verbatim>\<open>_config.py\<close>, not among the sources: a
  parameter). An exception there means that the module does not load.
\<close>

record security_constants =
  API_KEY_REQUIRED_STARTING_AT :: date
  API_KEY_HARD_WARNING :: date
  API_KEY_SOFT_WARNING :: date

definition load_constants :: "date \<Rightarrow> security_error + security_constants" where
  "load_constants required_starting_at =
     (case date_minus_days required_starting_at 14 of
        Inl e \<Rightarrow> Inl e
      | Inr hard \<Rightarrow>
          (case date_minus_days hard 14 of
             Inl e \<Rightarrow> Inl e
           | Inr soft \<Rightarrow>
               Inr \<lparr>API_KEY_REQUIRED_STARTING_AT = required_starting_at,
                    API_KEY_HARD_WARNING = hard,
                    API_KEY_SOFT_WARNING = soft\<rparr>))"

text \<open>
  The three classifiers; \<open>cu\<close> is the value of \<^verbatim>\<open>current_user\<close> and \<open>n\<close> is
  \<^verbatim>\<open>date.today()\<close>. \<^verbatim>\<open>not current_user\<close> holds of an anonymous caller only.
\<close>

definition show_soft_api_key_warning :: "security_constants \<Rightarrow> user option \<Rightarrow> date \<Rightarrow> bool" where
  "show_soft_api_key_warning c cu n =
     (cu = None \<and> API_KEY_SOFT_WARNING c \<le> n \<and> n < API_KEY_HARD_WARNING c)"

definition show_hard_api_key_warning :: "security_constants \<Rightarrow> user option \<Rightarrow> date \<Rightarrow> bool" where
  "show_hard_api_key_warning c cu n =
     (cu = None \<and> API_KEY_HARD_WARNING c \<le> n \<and> n < API_KEY_REQUIRED_STARTING_AT c)"

definition require_api_key :: "security_constants \<Rightarrow> date \<Rightarrow> bool" where
  "require_api_key c n = (API_KEY_REQUIRED_STARTING_AT c \<le> n)"

subsection \<open>Public routes and the role guard\<close>

text \<open>
  \<^verbatim>\<open>_is_public_route\<close>; \<^verbatim>\<open>URL_PREFIX\<close> comes from \<^verbatim>\<open>_config.py\<close> and is a parameter.
\<close>

fun any_route :: "string \<Rightarrow> string \<Rightarrow> string list \<Rightarrow> bool" where
  "any_route url_prefix p [] = False"
| "any_route url_prefix p (route # routes) =
     (if startswith p (url_prefix @ ''/'' @ route) then True else any_route url_prefix p routes)"

definition public_routes_list :: "string list" where
  "public_routes_list = [''lib'', ''admin'', ''version'']"

definition is_public_route :: "string \<Rightarrow> request \<Rightarrow> bool" where
  "is_public_route url_prefix request = any_route url_prefix (request_path request) public_routes_list"

text \<open>
  \<^verbatim>\<open>require_role(required_role)(f)\<close>, applied to the arguments of a call: the handler
  itself when no role is required, otherwise the wrapper, which raises
  \<^verbatim>\<open>Unauthorized\<close> before the handler runs. \<open>cu\<close> is the value of \<^verbatim>\<open>current_user\<close>
  at the call.
\<close>

definition require_role ::
  "string \<Rightarrow> ('a \<Rightarrow> security_error + 'b) \<Rightarrow> user option \<Rightarrow> 'a \<Rightarrow> security_error + 'b"
where
  "require_role required_role f cu args =
     (if required_role = [] then f args
      else (case cu of
              None \<Rightarrow> Inl Unauthorized
            | Some u \<Rightarrow> if \<not> has_role u required_role then Inl Unauthorized else f args))"

section \<open>Covidcast signal database\<close>

text \<open>
  The tests of \<^verbatim>\<open>integrations/acquisition/covidcast/test_db.py\<close> drive
  \<^verbatim>\<open>Database.insert_or_update_batch\<close> of \<^verbatim>\<open>acquisition/covidcast/database.py\<close>,
  which is not among the sources. This section models it from the specification
  (its sections 3 and 4.2).
\<close>

subsection \<open>Rows and tables\<close>

text \<open>
  Modelled from the spec: \<^verbatim>\<open>CovidcastRow\<close> and the tables of the signal database
  (the class and the schema are not among the sources). The fields of \<^verbatim>\<open>CovidcastRow\<close>, in the order of the constructor call in
  \<^verbatim>\<open>_make_dummy_row\<close>. The measured quantities are floats in the source; nothing here
  computes with them, so their type is a parameter.
\<close>

record 'v covidcast_row =
  cc_source :: string
  cc_signal :: string
  cc_time_type :: string
  cc_geo_type :: string
  cc_time_value :: int
  cc_geo_value :: string
  cc_value :: 'v
  cc_stderr :: 'v
  cc_sample_size :: 'v
  cc_missing_value :: int
  cc_missing_stderr :: int
  cc_missing_sample_size :: int
  cc_issue :: int
  cc_lag :: int

type_synonym natural_key = "string \<times> string \<times> string \<times> int \<times> string \<times> string"

definition natural_key :: "'v covidcast_row \<Rightarrow> natural_key" where
  "natural_key r =
     (cc_source r, cc_signal r, cc_time_type r, cc_time_value r, cc_geo_type r, cc_geo_value r)"

text \<open>A stored row: the surrogate id \<^verbatim>\<open>signal_data_id\<close> and the row.\<close>

type_synonym 'v stored = "nat \<times> 'v covidcast_row"

datatype severity = Debug | Info | Warning | Error | Critical

datatype db_error = StorageIntegrityViolation

record 'v signal_db =
  signal_load :: "'v stored list"
  signal_latest :: "'v stored list"
  signal_history :: "'v stored list"
  signal_dim :: "((string \<times> string) \<times> nat) list"
  geo_dim :: "((string \<times> string) \<times> nat) list"
  next_id :: nat
  db_log :: "(severity \<times> string) list"

text \<open>The database after \<^verbatim>\<open>TRUNCATE TABLE\<close> on every table, as in \<^verbatim>\<open>setUp\<close>.\<close>

definition empty_db :: "'v signal_db" where
  "empty_db = \<lparr>signal_load = [], signal_latest = [], signal_history = [], signal_dim = [],
     geo_dim = [], next_id = 1, db_log = []\<rparr>"

subsection \<open>\<^verbatim>\<open>insert_or_update_batch\<close>\<close>

text \<open>
  Modelled from the spec: step 2 of \<^verbatim>\<open>insert_or_update_batch\<close>. Each row is inserted
  into the load table and acquires a fresh, auto-incrementing surrogate id.
\<close>

fun insert_load :: "nat \<Rightarrow> 'v covidcast_row list \<Rightarrow> 'v stored list" where
  "insert_load n [] = []"
| "insert_load n (r # rs) = (n, r) # insert_load (Suc n) rs"

text \<open>
  Modelled from the spec: step 3, the dimension tables. Both are append-only,
  idempotent lookups: an entry is created when the key has none.
\<close>

definition resolve_dim :: "('k \<times> nat) list \<Rightarrow> 'k \<Rightarrow> ('k \<times> nat) list" where
  "resolve_dim dim k = (case map_of dim k of Some _ \<Rightarrow> dim | None \<Rightarrow> dim @ [(k, Suc (length dim))])"

fun resolve_dims ::
  "((string \<times> string) \<times> nat) list \<times> ((string \<times> string) \<times> nat) list \<Rightarrow> 'v stored list
     \<Rightarrow> ((string \<times> string) \<times> nat) list \<times> ((string \<times> string) \<times> nat) list"
where
  "resolve_dims (sd, gd) [] = (sd, gd)"
| "resolve_dims (sd, gd) ((d, r) # ls) =
     resolve_dims (resolve_dim sd (cc_source r, cc_signal r),
                   resolve_dim gd (cc_geo_type r, cc_geo_value r)) ls"

text \<open>
  Modelled from the spec: step 4. If History has no row for (natural key, issue), one
  is inserted carrying the load-table surrogate id; otherwise the row is a duplicate
  delivery and History is left as it is.
\<close>

definition same_version :: "'v covidcast_row \<Rightarrow> 'v stored \<Rightarrow> bool" where
  "same_version r h = (natural_key (snd h) = natural_key r \<and> cc_issue (snd h) = cc_issue r)"

definition reconcile_history :: "'v stored list \<Rightarrow> 'v stored \<Rightarrow> 'v stored list" where
  "reconcile_history history l =
     (case find (same_version (snd l)) history of
        None \<Rightarrow> history @ [l]
      | Some _ \<Rightarrow> history)"

text \<open>
  Modelled from the spec: step 5. If Latest has no row for the natural key, the row is
  inserted with its surrogate id. If Latest has one with a lower issue, that one is
  deleted and the new row inserted, carrying the new surrogate id. If the Latest row
  has an issue at least the incoming one, the incoming row is ignored.
\<close>

definition same_key :: "'v covidcast_row \<Rightarrow> 'v stored \<Rightarrow> bool" where
  "same_key r l = (natural_key (snd l) = natural_key r)"

definition reconcile_latest :: "'v stored list \<Rightarrow> 'v stored \<Rightarrow> 'v stored list" where
  "reconcile_latest latest l =
     (case find (same_key (snd l)) latest of
        None \<Rightarrow> latest @ [l]
      | Some old \<Rightarrow>
          if cc_issue (snd old) < cc_issue (snd l)
          then filter (\<lambda>x. x \<noteq> old) latest @ [l]
          else latest)"

text \<open>
  Modelled from the spec: steps 4 and 5 applied to the rows of the load table, one row
  after the other, so that the Latest row of step 5 goes in with the surrogate id of
  the History row step 4 has just written for it.
\<close>

fun reconcile ::
  "'v stored list \<times> 'v stored list \<Rightarrow> 'v stored list \<Rightarrow> 'v stored list \<times> 'v stored list"
where
  "reconcile (history, latest) [] = (history, latest)"
| "reconcile (history, latest) (l # ls) =
     reconcile (reconcile_history history l, reconcile_latest latest l) ls"

text \<open>
  Modelled from the spec: the whole operation. Step 1 is the precondition: a load
  table that is not empty is an integrity error, logged at the highest severity, and
  nothing else happens. The load table is a transient staging area: it is empty again
  when the batch has been reconciled.
\<close>

definition insert_or_update_batch ::
  "'v signal_db \<Rightarrow> 'v covidcast_row list \<Rightarrow> (db_error + unit) \<times> 'v signal_db"
where
  "insert_or_update_batch db rows =
     (if signal_load db \<noteq> []
      then (Inl StorageIntegrityViolation,
            db\<lparr>db_log := db_log db @ [(Critical, ''Non-zero count in the load table'')]\<rparr>)
      else
        (let loaded = insert_load (next_id db) rows;
             (sd, gd) = resolve_dims (signal_dim db, geo_dim db) loaded;
             (history, latest) = reconcile (signal_history db, signal_latest db) loaded
         in (Inr (),
             db\<lparr>signal_load := [], signal_latest := latest, signal_history := history,
                signal_dim := sd, geo_dim := gd, next_id := next_id db + length rows\<rparr>)))"

text \<open>
  A sequence of batches, each applied to the database the previous one left, whether it
  was accepted or not.
\<close>

fun run_batches :: "'v signal_db \<Rightarrow> 'v covidcast_row list list \<Rightarrow> 'v signal_db" where
  "run_batches db [] = db"
| "run_batches db (rows # batches) = run_batches (snd (insert_or_update_batch db rows)) batches"

text \<open>
  The views of the tests: the Latest (History) row that matches a natural key and an
  issue, as \<^verbatim>\<open>_find_matches_for_row\<close> selects it.
\<close>

definition find_match :: "'v stored list \<Rightarrow> 'v covidcast_row \<Rightarrow> 'v stored option" where
  "find_match table r = find (same_version r) table"

subsection \<open>The id-sync invariant\<close>

text \<open>
  The invariant the specification states: every Latest row has a History row for its
  natural key and issue, and every such History row carries the same surrogate id.
\<close>

definition id_sync :: "'v signal_db \<Rightarrow> bool" where
  "id_sync db =
     (\<forall>l \<in> set (signal_latest db).
        (\<exists>h \<in> set (signal_history db). same_version (snd l) h)
        \<and> (\<forall>h \<in> set (signal_history db). same_version (snd l) h \<longrightarrow> fst h = fst l))"

text \<open>
  What the tables satisfy between batches, with \<open>n\<close> the next surrogate id: Latest is
  part of History; History has one row per natural key and issue, Latest one per
  natural key; every History row is covered by a Latest row of its key with an issue at
  least its own; every surrogate id in History is below \<open>n\<close>.
\<close>

definition tables_ok :: "'v stored list \<Rightarrow> 'v stored list \<Rightarrow> nat \<Rightarrow> bool" where
  "tables_ok history latest n =
     (set latest \<subseteq> set history
      \<and> (\<forall>h \<in> set history. \<forall>h' \<in> set history. same_version (snd h) h' \<longrightarrow> h' = h)
      \<and> (\<forall>l \<in> set latest. \<forall>l' \<in> set latest. same_key (snd l) l' \<longrightarrow> l' = l)
      \<and> (\<forall>h \<in> set history. \<exists>l \<in> set latest. same_key (snd h) l \<and> cc_issue (snd h) \<le> cc_issue (snd l))
      \<and> (\<forall>h \<in> set history. fst h < n))"

definition db_ok :: "'v signal_db \<Rightarrow> bool" where
  "db_ok db =
     (signal_load db = [] \<and> tables_ok (signal_history db) (signal_latest db) (next_id db))"

text \<open>The rows of \<^verbatim>\<open>test_id_sync\<close>: \<^verbatim>\<open>_make_dummy_row()\<close> and its reissue one issue later.\<close>

definition dummy_row :: "int covidcast_row" where
  "dummy_row = \<lparr>cc_source = ''src'', cc_signal = ''sig'', cc_time_type = ''day'',
     cc_geo_type = ''state'', cc_time_value = 20220222, cc_geo_value = ''pa'', cc_value = 2,
     cc_stderr = 22, cc_sample_size = 222, cc_missing_value = 0, cc_missing_stderr = 0,
     cc_missing_sample_size = 0, cc_issue = 20220222, cc_lag = 0\<rparr>"

definition next_row :: "int covidcast_row" where
  "next_row = dummy_row\<lparr>cc_issue := cc_issue dummy_row + 1\<rparr>"

text \<open>The numeric levels of the logging severities, \<^verbatim>\<open>CRITICAL\<close> being the highest.\<close>

fun level :: "severity \<Rightarrow> nat" where
  "level Debug = 10"
| "level Info = 20"
| "level Warning = 30"
| "level Error = 40"
| "level Critical = 50"

section \<open>Covidcast nowcast endpoint\<close>

text \<open>
  \<^verbatim>\<open>integrations/server/test_covidcast_nowcast.py\<close> queries the endpoint
  \<^verbatim>\<open>covidcast_nowcast\<close>, whose handler is not among the sources. This section models
  the selection of rows from the specification (its section 4.4).
\<close>

text \<open>
  Modelled from the spec: \<^verbatim>\<open>NowcastRow\<close> and the query filters of the endpoint, which
  is not among the sources. A row of the table \<^verbatim>\<open>covidcast_nowcast\<close>, with the columns of the \<^verbatim>\<open>insert\<close> of
  the test after the id. The value is a float in the source and is only passed on.
\<close>

record 'v nowcast_row =
  nc_source :: string
  nc_signal :: string
  nc_sensor_name :: string
  nc_time_type :: string
  nc_geo_type :: string
  nc_time_value :: int
  nc_geo_value :: string
  nc_value_updated_timestamp :: int
  nc_value :: 'v
  nc_issue :: int
  nc_lag :: int

type_synonym nowcast_key = "string \<times> string \<times> string \<times> string \<times> int \<times> string \<times> string"

definition nowcast_key :: "'v nowcast_row \<Rightarrow> nowcast_key" where
  "nowcast_key r =
     (nc_source r, nc_signal r, nc_sensor_name r, nc_time_type r, nc_time_value r,
      nc_geo_type r, nc_geo_value r)"

text \<open>
  The query filters: \<^verbatim>\<open>data_source\<close>, one or more \<^verbatim>\<open>signals\<close>, one or more
  \<^verbatim>\<open>sensor_names\<close>, \<^verbatim>\<open>time_type\<close>, \<^verbatim>\<open>geo_type\<close>, one or more \<^verbatim>\<open>time_values\<close>,
  \<^verbatim>\<open>geo_value\<close>, and the optional \<^verbatim>\<open>issues\<close> and \<^verbatim>\<open>as_of\<close>.
\<close>

record nowcast_query =
  q_data_source :: string
  q_signals :: "string list"
  q_sensor_names :: "string list"
  q_time_type :: string
  q_geo_type :: string
  q_time_values :: "int list"
  q_geo_value :: string
  q_issues :: "int list option"
  q_as_of :: "int option"

definition matches :: "nowcast_query \<Rightarrow> 'v nowcast_row \<Rightarrow> bool" where
  "matches q r =
     (nc_source r = q_data_source q \<and> nc_signal r \<in> set (q_signals q)
      \<and> nc_sensor_name r \<in> set (q_sensor_names q) \<and> nc_time_type r = q_time_type q
      \<and> nc_geo_type r = q_geo_type q \<and> nc_time_value r \<in> set (q_time_values q)
      \<and> nc_geo_value r = q_geo_value q)"

text \<open>The highest of a list of issues, if there is one (SQL's \<^verbatim>\<open>max(issue)\<close>).\<close>

fun max_issue :: "int list \<Rightarrow> int option" where
  "max_issue [] = None"
| "max_issue (i # is) = (case max_issue is of None \<Rightarrow> Some i | Some m \<Rightarrow> Some (max i m))"

text \<open>The rows of a natural key that carry the highest issue among the given rows.\<close>

definition highest_issue_rows :: "'v nowcast_row list \<Rightarrow> 'v nowcast_row list" where
  "highest_issue_rows rows =
     filter (\<lambda>r. max_issue (map nc_issue (filter (\<lambda>r'. nowcast_key r' = nowcast_key r) rows))
                  = Some (nc_issue r)) rows"

text \<open>
  Modelled from the spec: the issue-selection policy of the nowcast endpoint. With
  explicit issues, the matching rows at those issues; else with \<^verbatim>\<open>as_of\<close>, per natural
  key the matching row with the highest issue not above the bound; else per natural key
  the matching row with the highest issue.
\<close>

definition select_nowcast :: "'v nowcast_row list \<Rightarrow> nowcast_query \<Rightarrow> 'v nowcast_row list" where
  "select_nowcast table q =
     (let matching = filter (matches q) table in
      case q_issues q of
        Some issues \<Rightarrow> filter (\<lambda>r. nc_issue r \<in> set issues) matching
      | None \<Rightarrow>
          (case q_as_of q of
             Some as_of \<Rightarrow> highest_issue_rows (filter (\<lambda>r. nc_issue r \<le> as_of) matching)
           | None \<Rightarrow> highest_issue_rows matching))"

text \<open>The shape of a result row: signal, time_value, geo_value, value, issue, lag.\<close>

record 'v nowcast_result =
  res_signal :: string
  res_time_value :: int
  res_geo_value :: string
  res_value :: 'v
  res_issue :: int
  res_lag :: int

definition to_result :: "'v nowcast_row \<Rightarrow> 'v nowcast_result" where
  "to_result r = \<lparr>res_signal = nc_signal r, res_time_value = nc_time_value r,
     res_geo_value = nc_geo_value r, res_value = nc_value r, res_issue = nc_issue r,
     res_lag = nc_lag r\<rparr>"

definition covidcast_nowcast :: "'v nowcast_row list \<Rightarrow> nowcast_query \<Rightarrow> 'v nowcast_result list" where
  "covidcast_nowcast table q = map to_result (select_nowcast table q)"

text \<open>
  The table and the queries of \<^verbatim>\<open>test_query\<close>. The values 3.5, 2.5 and 1.5 are kept
  as their decimal strings.
\<close>

definition test_row :: "string \<Rightarrow> int \<Rightarrow> string nowcast_row" where
  "test_row v i = \<lparr>nc_source = ''src'', nc_signal = ''sig'', nc_sensor_name = ''sensor'',
     nc_time_type = ''day'', nc_geo_type = ''county'', nc_time_value = 20200101,
     nc_geo_value = ''01001'', nc_value_updated_timestamp = 12345678, nc_value = v,
     nc_issue = i, nc_lag = 2\<rparr>"

definition test_table :: "string nowcast_row list" where
  "test_table = [test_row ''3.5'' 20200101, test_row ''2.5'' 20200102, test_row ''1.5'' 20200103]"

definition test_query :: "int list option \<Rightarrow> int option \<Rightarrow> nowcast_query" where
  "test_query issues as_of = \<lparr>q_data_source = ''src'', q_signals = [''sig''],
     q_sensor_names = [''sensor''], q_time_type = ''day'', q_geo_type = ''county'',
     q_time_values = [20200101], q_geo_value = ''01001'', q_issues = issues, q_as_of = as_of\<rparr>"

text \<open>One row per natural key and issue, as the table is meant to be filled.\<close>

definition one_row_per_issue :: "'v nowcast_row list \<Rightarrow> bool" where
  "one_row_per_issue table =
     (\<forall>r \<in> set table. \<forall>r' \<in> set table.
        nowcast_key r' = nowcast_key r \<and> nc_issue r' = nc_issue r \<longrightarrow> r' = r)"

section \<open>Hospitalization acquisition\<close>

text \<open>
  \<^verbatim>\<open>integrations/acquisition/covid_hosp/state_daily/test_scenarios.py\<close> runs
  \<^verbatim>\<open>Update.run\<close> against a patched \<^verbatim>\<open>Network\<close>; the update, the driver
  \<^verbatim>\<open>Utils.update_dataset\<close> and the \<^verbatim>\<open>Database\<close> are not among the sources. This
  section models the run from the specification (its sections 3 and 4.1). Dates are
  the integers \<^verbatim>\<open>YYYYMMDD\<close> of the API, which are ordered as the dates are.
\<close>

text \<open>
  Modelled from the spec: the stored records, the metadata and the upstream feed of the
  acquisition pipeline, none of which is among the sources. A \<^verbatim>\<open>TimeseriesRecord\<close>: the natural key (state, date), the issue, and the metrics
  (some sixty nullable numbers, only passed on here).
\<close>

record 'm timeseries_record =
  ts_state :: string
  ts_date :: int
  ts_issue :: int
  ts_metrics :: 'm

text \<open>
  \<^verbatim>\<open>AcquisitionMetadata\<close>: one entry per batch, with its issue date and the location of
  the batch. One issue may come as several partitions, that is several entries.
\<close>

record metadata_entry =
  md_issue :: int
  md_location :: string

text \<open>
  The upstream feed as the patched \<^verbatim>\<open>Network\<close> gives it: \<^verbatim>\<open>fetch_metadata()\<close>, and
  \<^verbatim>\<open>fetch_dataset(batch)\<close> with the rows (state, date, metrics) of one partition.
\<close>

record 'm upstream =
  fetch_metadata :: "metadata_entry list"
  fetch_dataset :: "string \<Rightarrow> (string \<times> int \<times> 'm) list"

text \<open>
  Modelled from the spec: \<^verbatim>\<open>get_max_issue()\<close>, the maximum issue currently stored, or
  the epoch sentinel 1900-01-01 when storage is empty.
\<close>

definition epoch :: int where
  "epoch = 19000101"

definition get_max_issue :: "'m timeseries_record list \<Rightarrow> int" where
  "get_max_issue storage = (case max_issue (map ts_issue storage) of None \<Rightarrow> epoch | Some m \<Rightarrow> m)"

text \<open>
  Modelled from the spec: the upsert of one row, keyed by (state, date, issue). A row
  whose key is already stored overwrites that row's values; any other is a new row.
\<close>

definition ts_key :: "'m timeseries_record \<Rightarrow> string \<times> int \<times> int" where
  "ts_key r = (ts_state r, ts_date r, ts_issue r)"

definition upsert :: "'m timeseries_record list \<Rightarrow> 'm timeseries_record \<Rightarrow> 'm timeseries_record list" where
  "upsert storage r =
     (if ts_key r \<in> set (map ts_key storage)
      then map (\<lambda>s. if ts_key s = ts_key r then r else s) storage
      else storage @ [r])"

fun upsert_all :: "'m timeseries_record list \<Rightarrow> 'm timeseries_record list \<Rightarrow> 'm timeseries_record list" where
  "upsert_all storage [] = storage"
| "upsert_all storage (r # rs) = upsert_all (upsert storage r) rs"

text \<open>
  Modelled from the spec: one new issue. Its partitions are fetched in the order of
  the metadata and their rows, stamped with the issue, are merged into that issue's
  version by upserting them in order.
\<close>

definition stamp :: "int \<Rightarrow> string \<times> int \<times> 'm \<Rightarrow> 'm timeseries_record" where
  "stamp i row = (case row of (state, date, metrics) \<Rightarrow>
     \<lparr>ts_state = state, ts_date = date, ts_issue = i, ts_metrics = metrics\<rparr>)"

definition issue_rows :: "'m upstream \<Rightarrow> int \<Rightarrow> 'm timeseries_record list" where
  "issue_rows up i =
     concat (map (\<lambda>m. map (stamp i) (fetch_dataset up (md_location m)))
                 (filter (\<lambda>m. md_issue m = i) (fetch_metadata up)))"

fun acquire_issues :: "'m upstream \<Rightarrow> 'm timeseries_record list \<Rightarrow> int list \<Rightarrow> 'm timeseries_record list" where
  "acquire_issues up storage [] = storage"
| "acquire_issues up storage (i # is) = acquire_issues up (upsert_all storage (issue_rows up i)) is"

text \<open>
  Modelled from the spec: \<^verbatim>\<open>run()\<close>. The metadata is fetched once; the new issues are
  those above the maximum issue currently stored, taken in increasing order; the
  result says whether there was any.
\<close>

definition new_issues :: "metadata_entry list \<Rightarrow> int \<Rightarrow> int list" where
  "new_issues metadata stored_max = sort (remdups (filter (\<lambda>i. stored_max < i) (map md_issue metadata)))"

definition run :: "'m upstream \<Rightarrow> 'm timeseries_record list \<Rightarrow> bool \<times> 'm timeseries_record list" where
  "run up storage =
     (let metadata = fetch_metadata up;
          issues = new_issues metadata (get_max_issue storage)
      in (issues \<noteq> [], acquire_issues up storage issues))"

text \<open>
  The first acquisition of \<^verbatim>\<open>test_acquire_dataset\<close>: metadata citing the issues
  2021-03-13 and 2021-03-15, and the Wyoming row of the sample dataset behind both (of
  its metrics only \<^verbatim>\<open>critical_staffing_shortage_today_yes\<close> is kept).
\<close>

definition sample_upstream :: "int upstream" where
  "sample_upstream = \<lparr>fetch_metadata =
       [\<lparr>md_issue = 20210313, md_location = ''rev1''\<rparr>, \<lparr>md_issue = 20210315, md_location = ''rev2''\<rparr>],
     fetch_dataset = (\<lambda>batch. [(''WY'', 20201209, 8)])\<rparr>"

section \<open>Properties of the query engine\<close>

subsection \<open>Decimal rendering is injective and has digits only\<close>

lemma digit_char_inj: "a < 10 \<Longrightarrow> b < 10 \<Longrightarrow> digit_char a = digit_char b \<Longrightarrow> a = b"
  unfolding digit_char_def
  by (subst (asm) nth_eq_iff_index_eq) simp_all

lemma digit_char_digit: "d < 10 \<Longrightarrow> digit_char d \<in> set ''0123456789''"
  unfolding digit_char_def by (rule nth_mem) simp

lemma str_nat_nonempty: "str_nat n \<noteq> []"
  by (subst str_nat.simps) simp

lemma str_nat_nonempty': "[] \<noteq> str_nat n"
  using str_nat_nonempty [of n] by simp

lemma str_nat_digits: "set (str_nat n) \<subseteq> set ''0123456789''"
proof (induction n rule: str_nat.induct)
  case (1 n)
  show ?case
  proof (cases "n < 10")
    case True
    then show ?thesis
      using digit_char_digit [of n] by (subst str_nat.simps) simp
  next
    case False
    have "n mod 10 < 10" by simp
    then have "digit_char (n mod 10) \<in> set ''0123456789''" by (rule digit_char_digit)
    with False "1.IH" show ?thesis
      by (subst str_nat.simps) simp
  qed
qed

lemma str_nat_no_underscore: "CHR ''_'' \<notin> set (str_nat n)"
  using str_nat_digits [of n] by auto

lemma str_nat_inj: "str_nat m = str_nat n \<Longrightarrow> m = n"
proof (induction m arbitrary: n rule: str_nat.induct)
  case (1 m)
  show ?case
  proof (cases "m < 10")
    case m: True
    show ?thesis
    proof (cases "n < 10")
      case True
      with m "1.prems" show ?thesis
        by (simp add: str_nat.simps [of m] str_nat.simps [of n] digit_char_inj)
    next
      case False
      with m "1.prems" show ?thesis
        by (simp add: str_nat.simps [of m] str_nat.simps [of n] str_nat_nonempty str_nat_nonempty')
    qed
  next
    case m: False
    show ?thesis
    proof (cases "n < 10")
      case True
      with m "1.prems" show ?thesis
        by (simp add: str_nat.simps [of m] str_nat.simps [of n] str_nat_nonempty str_nat_nonempty')
    next
      case False
      with m "1.prems" have eq: "str_nat (m div 10) = str_nat (n div 10)"
        and d: "digit_char (m mod 10) = digit_char (n mod 10)"
        by (simp_all add: str_nat.simps [of m] str_nat.simps [of n])
      from "1.IH" [OF m eq] have "m div 10 = n div 10" .
      moreover from d have "m mod 10 = n mod 10"
        by (intro digit_char_inj) simp_all
      ultimately show ?thesis
        by (metis div_mult_mod_eq)
    qed
  qed
qed

subsection \<open>Bind-parameter names\<close>

lemma indexed_key_inj: "indexed_key k i = indexed_key k j \<longleftrightarrow> i = j"
  by (auto simp: indexed_key_def dest: str_nat_inj)

lemma indexed_key_2_neq: "indexed_key k i @ ''_2'' \<noteq> indexed_key k j"
proof
  assume "indexed_key k i @ ''_2'' = indexed_key k j"
  then have "str_nat i @ ''_2'' = str_nat j" by (simp add: indexed_key_def)
  then have "CHR ''_'' \<in> set (str_nat j)" by (metis in_set_conv_decomp)
  then show False by (simp add: str_nat_no_underscore)
qed

lemma bound_names_cases:
  "n \<in> set (bound_names (indexed_key k j) v) \<Longrightarrow> n = indexed_key k j \<or> n = indexed_key k j @ ''_2''"
  by (cases v) auto

lemma names_from_Nil: "names_from k i [] = []"
  by (simp add: names_from_def)

lemma names_from_Cons:
  "names_from k i (v # vs) = bound_names (indexed_key k i) v @ names_from k (Suc i) vs"
  by (simp add: names_from_def)

lemma names_from_index:
  "n \<in> set (names_from k i vals) \<Longrightarrow>
     \<exists>j. i \<le> j \<and> j < i + length vals \<and> (n = indexed_key k j \<or> n = indexed_key k j @ ''_2'')"
proof (induction vals arbitrary: i)
  case Nil
  then show ?case by (simp add: names_from_Nil)
next
  case (Cons v vs)
  from Cons.prems consider
    (hd) "n \<in> set (bound_names (indexed_key k i) v)" | (tl) "n \<in> set (names_from k (Suc i) vs)"
    by (auto simp: names_from_Cons)
  then show ?case
  proof cases
    case hd
    then show ?thesis using bound_names_cases [of n k i v] by auto
  next
    case tl
    from Cons.IH [OF tl] obtain j where "Suc i \<le> j" "j < Suc i + length vs"
      "n = indexed_key k j \<or> n = indexed_key k j @ ''_2''" by blast
    then show ?thesis by (intro exI [of _ j]) simp
  qed
qed

lemma head_names_fresh:
  "n \<in> set (bound_names (indexed_key k i) v) \<Longrightarrow> n \<notin> set (names_from k (Suc i) vs)"
proof
  assume hd: "n \<in> set (bound_names (indexed_key k i) v)" and tl: "n \<in> set (names_from k (Suc i) vs)"
  from names_from_index [OF tl] obtain j where j: "Suc i \<le> j"
    and n: "n = indexed_key k j \<or> n = indexed_key k j @ ''_2''" by blast
  from bound_names_cases [OF hd] have "n = indexed_key k i \<or> n = indexed_key k i @ ''_2''" .
  with n j show False
    using indexed_key_inj [of k i j] indexed_key_2_neq [of k i j] indexed_key_2_neq [of k j i]
    by auto
qed

lemma distinct_bound_names: "distinct (bound_names (indexed_key k i) v)"
  by (cases v) (simp_all add: indexed_key_def)

lemma distinct_names_from: "distinct (names_from k i vals)"
proof (induction vals arbitrary: i)
  case Nil
  show ?case by (simp add: names_from_Nil)
next
  case (Cons v vs)
  show ?case
    using Cons.IH [of "Suc i"] distinct_bound_names [of k i v] head_names_fresh [of _ k i v vs]
    by (auto simp: names_from_Cons)
qed

lemma names_from_shape:
  "n \<in> set (names_from k i vals) \<Longrightarrow> \<exists>s. n = k @ CHR ''_'' # s"
  by (drule names_from_index) (auto simp: indexed_key_def)

lemma names_from_prefix: "n \<in> set (names_from k i vals) \<Longrightarrow> prefix (k @ ''_'') n"
proof -
  assume "n \<in> set (names_from k i vals)"
  then obtain s where "n = k @ CHR ''_'' # s" by (blast dest: names_from_shape)
  then have "n = (k @ ''_'') @ s" by simp
  then show "prefix (k @ ''_'') n" by (rule prefixI)
qed

lemma names_disjoint:
  assumes "\<not> prefix (k1 @ ''_'') (k2 @ ''_'')" and "\<not> prefix (k2 @ ''_'') (k1 @ ''_'')"
  shows "set (names_from k1 i vals1) \<inter> set (names_from k2 j vals2) = {}"
proof (rule ccontr)
  assume "set (names_from k1 i vals1) \<inter> set (names_from k2 j vals2) \<noteq> {}"
  then obtain n where "n \<in> set (names_from k1 i vals1)" and "n \<in> set (names_from k2 j vals2)"
    by blast
  then have "prefix (k1 @ ''_'') n" and "prefix (k2 @ ''_'') n"
    by (simp_all add: names_from_prefix)
  then have "prefix (k1 @ ''_'') (k2 @ ''_'') \<or> prefix (k2 @ ''_'') (k1 @ ''_'')"
    by (rule prefix_same_cases)
  with assms show False by blast
qed

lemma prefix_free_keys:
  assumes "\<not> prefix k1 k2" and "\<not> prefix k2 k1"
  shows "\<not> prefix (k1 @ ''_'') (k2 @ ''_'') \<and> \<not> prefix (k2 @ ''_'') (k1 @ ''_'')"
  using assms by (auto dest: append_prefixD)

subsection \<open>The clause and the bindings of a well-formed call\<close>

lemma to_condition_ok:
  "well_formed v \<Longrightarrow>
   fst (to_condition field v k params formatter) = Inr (predicate field k v)"
  by (cases v) (auto simp: to_condition_def Let_def split: list.splits)

lemma to_condition_other:
  "n \<notin> set (bound_names k v) \<Longrightarrow> snd (to_condition field v k params formatter) n = params n"
  by (cases v) (auto simp: to_condition_def Let_def split: list.splits)

lemma conditions_Cons_ok:
  assumes "well_formed v"
  shows "conditions field i (v # vs) k params formatter =
     (case conditions field (Suc i) vs k (snd (to_condition field v (indexed_key k i) params formatter)) formatter of
        (Inl e, p) \<Rightarrow> (Inl e, p)
      | (Inr cs, p) \<Rightarrow> (Inr (predicate field (indexed_key k i) v # cs), p))"
  using to_condition_ok [OF assms, of field "indexed_key k i" params formatter]
  by (cases "to_condition field v (indexed_key k i) params formatter") simp

lemma conditions_ok:
  "\<forall>v \<in> set vals. well_formed v \<Longrightarrow>
   fst (conditions field i vals k params formatter) = Inr (predicates field k i vals)"
proof (induction vals arbitrary: i params)
  case Nil
  show ?case by (simp add: predicates_def)
next
  case (Cons v vs)
  then have v: "well_formed v" and vs: "\<forall>v \<in> set vs. well_formed v" by simp_all
  from Cons.IH [OF vs, of "Suc i" "snd (to_condition field v (indexed_key k i) params formatter)"]
  show ?case
    by (auto simp add: conditions_Cons_ok [OF v] predicates_def split: prod.splits sum.splits simp del: conditions.simps)
qed

lemma conditions_other:
  "\<forall>v \<in> set vals. well_formed v \<Longrightarrow> n \<notin> set (names_from k i vals) \<Longrightarrow>
   snd (conditions field i vals k params formatter) n = params n"
proof (induction vals arbitrary: i params)
  case Nil
  show ?case by simp
next
  case (Cons v vs)
  then have v: "well_formed v" and vs: "\<forall>v \<in> set vs. well_formed v" by simp_all
  from Cons.prems have hd: "n \<notin> set (bound_names (indexed_key k i) v)"
    and tl: "n \<notin> set (names_from k (Suc i) vs)"
    by (simp_all add: names_from_Cons)
  let ?p1 = "snd (to_condition field v (indexed_key k i) params formatter)"
  have "snd (conditions field i (v # vs) k params formatter) n
      = snd (conditions field (Suc i) vs k ?p1 formatter) n"
    by (simp add: conditions_Cons_ok [OF v] split: prod.splits sum.splits del: conditions.simps)
  also have "\<dots> = ?p1 n" by (rule Cons.IH [OF vs tl])
  also have "\<dots> = params n" by (rule to_condition_other [OF hd])
  finally show ?case .
qed

lemma to_condition_binds:
  "well_formed v \<Longrightarrow>
   binding_holds (snd (to_condition field v (indexed_key k i) params formatter)) formatter (indexed_key k i) v"
  by (cases v) (auto simp: to_condition_def Let_def indexed_key_def split: list.splits)

lemma binding_holds_cong:
  "(\<And>n. n \<in> set (bound_names k v) \<Longrightarrow> p n = q n) \<Longrightarrow> binding_holds p formatter k v = binding_holds q formatter k v"
  by (cases v) auto

lemma conditions_binds:
  "\<forall>v \<in> set vals. well_formed v \<Longrightarrow> j < length vals \<Longrightarrow>
   binding_holds (snd (conditions field i vals k params formatter)) formatter (indexed_key k (i + j)) (vals ! j)"
proof (induction vals arbitrary: i j params)
  case Nil
  then show ?case by simp
next
  case (Cons v vs)
  then have v: "well_formed v" and vs: "\<forall>v \<in> set vs. well_formed v" by simp_all
  let ?p1 = "snd (to_condition field v (indexed_key k i) params formatter)"
  have step: "snd (conditions field i (v # vs) k params formatter)
      = snd (conditions field (Suc i) vs k ?p1 formatter)"
    by (simp add: conditions_Cons_ok [OF v] split: prod.splits sum.splits del: conditions.simps)
  show ?case
  proof (cases j)
    case 0
    have "binding_holds (snd (conditions field (Suc i) vs k ?p1 formatter)) formatter (indexed_key k i) v
        = binding_holds ?p1 formatter (indexed_key k i) v"
      by (rule binding_holds_cong) (simp add: conditions_other [OF vs] head_names_fresh)
    with 0 step to_condition_binds [OF v, of field k i params formatter] show ?thesis by simp
  next
    case (Suc j')
    with Cons.prems have "j' < length vs" by simp
    from Cons.IH [OF vs this, of "Suc i" ?p1] Suc step show ?thesis by simp
  qed
qed

lemma first_name_generated: "vals \<noteq> [] \<Longrightarrow> indexed_key k 0 \<in> set (generated_names k vals)"
proof (cases vals)
  case Nil
  moreover assume "vals \<noteq> []"
  ultimately show ?thesis by simp
next
  case (Cons v vs)
  have "indexed_key k 0 \<in> set (bound_names (indexed_key k 0) v)" by (cases v) simp_all
  with Cons show ?thesis by (simp add: generated_names_def names_from_Cons)
qed

text \<open>
  Claim C7, as the code has it. For every sequence of well-formed filter values (each a
  scalar or a pair), \<^verbatim>\<open>filter_values\<close> returns one parenthesised clause: the
  predicates of the values in order, joined by \<^verbatim>\<open>" OR "\<close>; there is exactly one
  predicate per value, \<^verbatim>\<open>field = :key_i\<close> for the scalar at index \<open>i\<close> and
  \<^verbatim>\<open>field BETWEEN :key_i AND :key_i_2\<close> for the pair at index \<open>i\<close>; the
  dictionary binds each of these names to the formatted value (both bounds of a pair),
  and keeps every other name as it was. The names one call generates are pairwise
  distinct. Across two calls the names are disjoint whenever neither \<^verbatim>\<open>param_key\<close>
  followed by an underscore is a prefix of the other followed by an underscore (a
  sufficient condition, met in particular when neither key is a prefix of the other).
  The running index restarts at 0 in every call: two calls that are given the same
  \<^verbatim>\<open>param_key\<close> and at least one value each both generate the name \<^verbatim>\<open>key_0\<close>.
\<close>

theorem filter_values_clause:
  assumes wf: "\<forall>v \<in> set vals. well_formed v"
  shows "fst (filter_values field vals k params formatter)
           = Inr (''('' @ join '' OR '' (predicates field k 0 vals) @ '')'')
       \<and> length (predicates field k 0 vals) = length vals
       \<and> (\<forall>j < length vals. predicates field k 0 vals ! j = predicate field (indexed_key k j) (vals ! j))
       \<and> (\<forall>j < length vals.
            binding_holds (snd (filter_values field vals k params formatter)) formatter
              (indexed_key k j) (vals ! j))
       \<and> (\<forall>n. n \<notin> set (generated_names k vals) \<longrightarrow>
            snd (filter_values field vals k params formatter) n = params n)
       \<and> distinct (generated_names k vals)
       \<and> (\<forall>k' vals'. \<not> prefix (k @ ''_'') (k' @ ''_'') \<and> \<not> prefix (k' @ ''_'') (k @ ''_'') \<longrightarrow>
            set (generated_names k vals) \<inter> set (generated_names k' (vals' :: 'a filter_value list)) = {})
       \<and> (\<forall>vals'. vals \<noteq> [] \<and> vals' \<noteq> [] \<longrightarrow>
            indexed_key k 0 \<in> set (generated_names k vals)
                                \<inter> set (generated_names k (vals' :: 'a filter_value list)))
       \<and> (\<forall>k' vals'. \<not> prefix k k' \<and> \<not> prefix k' k \<longrightarrow>
            set (generated_names k vals) \<inter> set (generated_names k' (vals' :: 'a filter_value list)) = {})"
proof -
  obtain cs p where c: "conditions field 0 vals k params formatter = (cs, p)"
    by (cases "conditions field 0 vals k params formatter")
  from conditions_ok [OF wf, of field 0 k params formatter] c
  have cs: "cs = Inr (predicates field k 0 vals)" by simp
  have fv: "filter_values field vals k params formatter
      = (Inr (''('' @ join '' OR '' (predicates field k 0 vals) @ '')''), p)"
    by (simp add: filter_values_def c cs)
  have p: "p = snd (conditions field 0 vals k params formatter)" by (simp add: c)
  have 1: "fst (filter_values field vals k params formatter)
           = Inr (''('' @ join '' OR '' (predicates field k 0 vals) @ '')'')"
    by (simp add: fv)
  have 2: "length (predicates field k 0 vals) = length vals"
    by (simp add: predicates_def)
  have 3: "\<forall>j < length vals. predicates field k 0 vals ! j = predicate field (indexed_key k j) (vals ! j)"
    by (simp add: predicates_def nth_enumerate_eq)
  have 4: "\<forall>j < length vals.
            binding_holds (snd (filter_values field vals k params formatter)) formatter
              (indexed_key k j) (vals ! j)"
    using conditions_binds [OF wf, of _ field 0 k params formatter] by (simp add: fv p)
  have 5: "\<forall>n. n \<notin> set (generated_names k vals) \<longrightarrow>
            snd (filter_values field vals k params formatter) n = params n"
    using conditions_other [OF wf, of _ k 0 field params formatter]
    by (simp add: fv p generated_names_def)
  have 6: "distinct (generated_names k vals)"
    by (simp add: generated_names_def distinct_names_from)
  have 7: "\<forall>k' vals'. \<not> prefix (k @ ''_'') (k' @ ''_'') \<and> \<not> prefix (k' @ ''_'') (k @ ''_'') \<longrightarrow>
            set (generated_names k vals) \<inter> set (generated_names k' (vals' :: 'a filter_value list)) = {}"
    by (simp add: generated_names_def names_disjoint)
  have 8: "\<forall>vals'. vals \<noteq> [] \<and> vals' \<noteq> [] \<longrightarrow>
            indexed_key k 0 \<in> set (generated_names k vals)
                                \<inter> set (generated_names k (vals' :: 'a filter_value list))"
    by (simp add: first_name_generated)
  have 9: "\<forall>k' vals'. \<not> prefix k k' \<and> \<not> prefix k' k \<longrightarrow>
            set (generated_names k vals) \<inter> set (generated_names k' (vals' :: 'a filter_value list)) = {}"
    using prefix_free_keys [of k] by (simp add: generated_names_def names_disjoint)
  from 1 2 3 4 5 6 7 8 9 show ?thesis by blast
qed

text \<open>
  The theorem at \<^verbatim>\<open>filter_dates("t.issue", [20200101, (20200101, 20200202)], "issue", {})\<close>,
  next to a second call with the key \<^verbatim>\<open>"time"\<close>.
\<close>

theorem filter_values_clause_witness:
  "fst (filter_dates ''t.issue'' [Scalar 20200101, Tuple [20200101, 20200202]] ''issue'' Map.empty)
     = Inr ''(t.issue = :issue_0 OR t.issue BETWEEN :issue_1 AND :issue_1_2)''
   \<and> snd (filter_dates ''t.issue'' [Scalar 20200101, Tuple [20200101, 20200202]] ''issue'' Map.empty) ''issue_1_2''
     = Some (SqlStr ''2020-02-02'')
   \<and> generated_names ''issue'' [Scalar (20200101 :: int), Tuple [20200101, 20200202]]
     = [''issue_0'', ''issue_1'', ''issue_1_2'']
   \<and> set (generated_names ''issue'' [Scalar (20200101 :: int), Tuple [20200101, 20200202]])
       \<inter> set (generated_names ''time'' [Scalar (20200101 :: int)]) = {}"
proof -
  let ?vals = "[Scalar (20200101 :: int), Tuple [20200101, 20200202]]"
  have wf: "\<forall>v \<in> set ?vals. well_formed v" by simp
  have d: "date_string 20200202 = ''2020-02-02''" by code_simp
  have g: "generated_names ''issue'' ?vals = [''issue_0'', ''issue_1'', ''issue_1_2'']"
    by code_simp
  have pr: "predicates ''t.issue'' ''issue'' 0 ?vals = [''t.issue = :issue_0'', ''t.issue BETWEEN :issue_1 AND :issue_1_2'']"
    by code_simp
  have i1: "indexed_key ''issue'' (Suc 0) = ''issue_1''" by code_simp
  note T = filter_values_clause [OF wf, of "''t.issue''" "''issue''" Map.empty "\<lambda>v. SqlStr (date_string v)"]
  from T [THEN conjunct1]
  have a: "fst (filter_dates ''t.issue'' ?vals ''issue'' Map.empty)
           = Inr (''('' @ join '' OR '' (predicates ''t.issue'' ''issue'' 0 ?vals) @ '')'')"
    by (simp add: filter_dates_def)
  from T [THEN conjunct2, THEN conjunct2, THEN conjunct2, THEN conjunct1, rule_format, of 1]
  have b: "binding_holds (snd (filter_dates ''t.issue'' ?vals ''issue'' Map.empty)) (\<lambda>v. SqlStr (date_string v))
              (indexed_key ''issue'' 1) (?vals ! 1)"
    by (simp add: filter_dates_def)
  have np: "\<not> prefix (''issue'' @ ''_'') (''time'' @ ''_'') \<and> \<not> prefix (''time'' @ ''_'') (''issue'' @ ''_'')"
    by simp
  from T [THEN conjunct2, THEN conjunct2, THEN conjunct2, THEN conjunct2, THEN conjunct2, THEN conjunct2,
      THEN conjunct1, rule_format, OF np, of "[Scalar (20200101 :: int)]"]
  have c: "set (generated_names ''issue'' ?vals) \<inter> set (generated_names ''time'' [Scalar (20200101 :: int)]) = {}" .
  from a have a': "fst (filter_dates ''t.issue'' ?vals ''issue'' Map.empty)
     = Inr ''(t.issue = :issue_0 OR t.issue BETWEEN :issue_1 AND :issue_1_2)''"
    by (simp add: pr)
  from b have b': "snd (filter_dates ''t.issue'' ?vals ''issue'' Map.empty) ''issue_1_2''
     = Some (SqlStr ''2020-02-02'')"
    by (simp add: i1 d)
  from a' b' g c show ?thesis by blast
qed

text \<open>
  Claim C7 as the specification words it (names unique within the whole query, whatever
  helper calls filter the same field) does not hold. Two calls on the same field that
  are given the same \<^verbatim>\<open>param_key\<close> both generate \<^verbatim>\<open>t_0\<close>, and the second binding
  replaces the first in the shared dictionary. Distinct keys are not enough either: the
  pair at index 0 under the key \<^verbatim>\<open>issue\<close> and the scalar at index 2 under the key
  \<^verbatim>\<open>issue_0\<close> both generate \<^verbatim>\<open>issue_0_2\<close>.
\<close>

theorem filter_values_names_collide:
  "filter_integers ''t.time_value'' [Scalar 20200101] ''t'' Map.empty
     = (Inr ''(t.time_value = :t_0)'', [''t_0'' \<mapsto> SqlInt 20200101])
   \<and> filter_integers ''t.time_value'' [Scalar 20200102] ''t'' [''t_0'' \<mapsto> SqlInt 20200101]
     = (Inr ''(t.time_value = :t_0)'', [''t_0'' \<mapsto> SqlInt 20200102])
   \<and> ''issue_0_2'' \<in> set (generated_names ''issue'' [Tuple [20200101, 20200202 :: int]])
   \<and> ''issue_0_2'' \<in> set (generated_names ''issue_0'' [Scalar 1, Scalar 2, Scalar (3 :: int)])"
  by (simp add: filter_integers_def filter_values_def to_condition_def indexed_key_def
      str_nat.simps digit_char_def generated_names_def names_from_def)

subsection \<open>The empty sequence\<close>

text \<open>
  Claim C10. On an empty sequence of values \<^verbatim>\<open>filter_values\<close> does not fail: it
  returns the clause \<^verbatim>\<open>()\<close>, an empty join between the parentheses, and leaves the
  bind-parameter dictionary as it was.
\<close>

theorem filter_values_empty:
  "filter_values field [] param_key params formatter = (Inr ''()'', params)"
  by (simp add: filter_values_def)

subsection \<open>Row parsing\<close>

lemma parse_strings_lookup:
  "parse_strings row fs parsed f = (if f \<in> set fs then Some (row_get row f) else parsed f)"
  by (induction fs arbitrary: parsed) auto

lemma parse_coerced_other:
  "parse_coerced conv row fs parsed = Inr p \<Longrightarrow> f \<notin> set fs \<Longrightarrow> p f = parsed f"
proof (induction fs arbitrary: parsed)
  case Nil
  then show ?case by simp
next
  case (Cons g gs)
  then show ?case
    by (auto split: option.splits sum.splits)
qed

lemma parse_coerced_absent:
  "parse_coerced conv row fs parsed = Inr p \<Longrightarrow> f \<in> set fs \<Longrightarrow> row f = None \<Longrightarrow> p f = Some None"
proof (induction fs arbitrary: parsed)
  case Nil
  then show ?case by simp
next
  case (Cons g gs)
  show ?case
  proof (cases "f \<in> set gs")
    case True
    with Cons show ?thesis by (auto split: option.splits sum.splits)
  next
    case False
    with Cons.prems have fg: "g = f" by simp
    with Cons.prems have "parse_coerced conv row gs (parsed(f \<mapsto> None)) = Inr p" by simp
    from parse_coerced_other [OF this False] show ?thesis by simp
  qed
qed

lemma parse_coerced_absent_kept:
  "parse_coerced conv row fs parsed = Inr p \<Longrightarrow> row f = None \<Longrightarrow> parsed f = Some None \<Longrightarrow> p f = Some None"
  by (cases "f \<in> set fs") (simp_all add: parse_coerced_absent parse_coerced_other)

lemma parse_coerced_null:
  "f \<in> set fs \<Longrightarrow> row f = Some None \<Longrightarrow> \<exists>e. parse_coerced conv row fs parsed = Inl e"
proof (induction fs arbitrary: parsed)
  case Nil
  then show ?case by simp
next
  case (Cons g gs)
  show ?case
  proof (cases "g = f")
    case True
    with Cons.prems show ?thesis by (simp add: row_get_def coerce_def)
  next
    case False
    with Cons.prems have "f \<in> set gs" by simp
    from Cons.IH [OF this Cons.prems(2)] show ?thesis
      by (auto split: option.splits sum.splits)
  qed
qed

lemma truthy_declared: "truthy flds \<Longrightarrow> declared flds = set (the flds)"
  by (cases flds) (simp_all add: truthy_def declared_def)

lemma not_truthy_declared: "\<not> truthy flds \<Longrightarrow> declared flds = {}"
  by (cases flds) (simp_all add: truthy_def declared_def)

text \<open>
  Claim C9. Whenever \<^verbatim>\<open>parse_row\<close> returns, a declared field (string, int or float)
  that is absent from the raw row has an explicit \<^verbatim>\<open>None\<close> entry in the result. A
  declared int or float field that is present with a null value makes the call raise
  (the coercion of \<^verbatim>\<open>None\<close> is a \<^verbatim>\<open>TypeError\<close>), so the call returns only on rows
  without nulls in the declared numeric fields. A field declared as a string only is
  passed through as \<^verbatim>\<open>row.get\<close> gives it, and a call that declares no numeric field
  always returns.
\<close>

theorem parse_row_absent_null_string:
  "(parse_row to_int to_float row fields_string fields_int fields_float = Inr parsed
      \<and> f \<in> declared fields_string \<union> declared fields_int \<union> declared fields_float
      \<and> row f = None
    \<longrightarrow> parsed f = Some None)
   \<and> (f \<in> declared fields_int \<union> declared fields_float \<and> row f = Some None
    \<longrightarrow> (\<exists>e. parse_row to_int to_float row fields_string fields_int fields_float = Inl e))
   \<and> (parse_row to_int to_float row fields_string fields_int fields_float = Inr parsed
      \<and> f \<in> declared fields_string \<and> f \<notin> declared fields_int \<union> declared fields_float
    \<longrightarrow> parsed f = Some (row_get row f))
   \<and> (\<not> truthy fields_int \<and> \<not> truthy fields_float
    \<longrightarrow> (\<exists>p. parse_row to_int to_float row fields_string fields_int fields_float = Inr p))"
proof -
  define p1 :: "'a row" where
    "p1 = (if truthy fields_string then parse_strings row (the fields_string) Map.empty else Map.empty)"
  define r2 where
    "r2 = (if truthy fields_int then parse_coerced to_int row (the fields_int) p1 else Inr p1)"
  have pr: "parse_row to_int to_float row fields_string fields_int fields_float =
      (case r2 of Inl e \<Rightarrow> Inl e
       | Inr p2 \<Rightarrow> if truthy fields_float then parse_coerced to_float row (the fields_float) p2 else Inr p2)"
    by (simp add: parse_row_def p1_def r2_def Let_def)
  have p1: "p1 f = (if f \<in> declared fields_string then Some (row_get row f) else None)"
    by (cases "truthy fields_string")
       (simp_all add: p1_def parse_strings_lookup truthy_declared not_truthy_declared)
  have A: "parsed f = Some None"
    if ok: "parse_row to_int to_float row fields_string fields_int fields_float = Inr parsed"
      and d: "f \<in> declared fields_string \<union> declared fields_int \<union> declared fields_float"
      and ab: "row f = None"
  proof -
    from ok pr obtain p2 where r2: "r2 = Inr p2"
      and fl: "(if truthy fields_float then parse_coerced to_float row (the fields_float) p2 else Inr p2) = Inr parsed"
      by (cases r2) simp_all
    show ?thesis
    proof (cases "f \<in> declared fields_float")
      case True
      then have t: "truthy fields_float" using not_truthy_declared by blast
      with True have "f \<in> set (the fields_float)" by (simp add: truthy_declared)
      with fl t ab show ?thesis by (simp add: parse_coerced_absent)
    next
      case nf: False
      have p2: "p2 f = Some None"
      proof (cases "f \<in> declared fields_int")
        case True
        then have t: "truthy fields_int" using not_truthy_declared by blast
        with True have "f \<in> set (the fields_int)" by (simp add: truthy_declared)
        with r2 t ab show ?thesis by (simp add: r2_def parse_coerced_absent)
      next
        case False
        with nf d have "f \<in> declared fields_string" by simp
        with p1 ab have "p1 f = Some None" by (simp add: row_get_def)
        with r2 ab show ?thesis
          by (cases "truthy fields_int") (simp_all add: r2_def parse_coerced_absent_kept)
      qed
      with fl ab show ?thesis
        by (cases "truthy fields_float") (simp_all add: parse_coerced_absent_kept)
    qed
  qed
  have B: "\<exists>e. parse_row to_int to_float row fields_string fields_int fields_float = Inl e"
    if d: "f \<in> declared fields_int \<union> declared fields_float" and nu: "row f = Some None"
  proof (cases r2)
    case (Inl e)
    with pr show ?thesis by simp
  next
    case (Inr p2)
    have nint: "f \<notin> declared fields_int"
    proof
      assume fi: "f \<in> declared fields_int"
      then have t: "truthy fields_int" using not_truthy_declared by blast
      with fi have "f \<in> set (the fields_int)" by (simp add: truthy_declared)
      from parse_coerced_null [where row = row and f = f and conv = to_int and parsed = p1, OF this nu] t Inr
      show False by (simp add: r2_def)
    qed
    with d have ff: "f \<in> declared fields_float" by simp
    then have t: "truthy fields_float" using not_truthy_declared by blast
    with ff have "f \<in> set (the fields_float)" by (simp add: truthy_declared)
    from parse_coerced_null [where row = row and f = f and conv = to_float and parsed = p2, OF this nu] t Inr pr
    show ?thesis by simp
  qed
  have C: "parsed f = Some (row_get row f)"
    if ok: "parse_row to_int to_float row fields_string fields_int fields_float = Inr parsed"
      and s: "f \<in> declared fields_string" and n: "f \<notin> declared fields_int \<union> declared fields_float"
  proof -
    from ok pr obtain p2 where r2: "r2 = Inr p2"
      and fl: "(if truthy fields_float then parse_coerced to_float row (the fields_float) p2 else Inr p2) = Inr parsed"
      by (cases r2) simp_all
    from n have ni: "truthy fields_int \<Longrightarrow> f \<notin> set (the fields_int)"
      and nf: "truthy fields_float \<Longrightarrow> f \<notin> set (the fields_float)"
      by (simp_all add: truthy_declared)
    from r2 ni have "p2 f = p1 f"
      by (cases "truthy fields_int") (simp_all add: r2_def parse_coerced_other)
    moreover from fl nf have "parsed f = p2 f"
      by (cases "truthy fields_float") (simp_all add: parse_coerced_other)
    ultimately show ?thesis using p1 s by simp
  qed
  have D: "\<exists>p. parse_row to_int to_float row fields_string fields_int fields_float = Inr p"
    if "\<not> truthy fields_int" and "\<not> truthy fields_float"
    using that by (simp add: pr r2_def)
  from A B C D show ?thesis by blast
qed

text \<open>
  A row whose \<^verbatim>\<open>value\<close> column is null against one that lacks the column, with
  \<^verbatim>\<open>geo\<close> declared a string and \<^verbatim>\<open>value\<close> an int.
\<close>

theorem parse_row_absent_null_string_witness:
  "parse_row Inr Inr [''value'' \<mapsto> None, ''geo'' \<mapsto> Some (1 :: nat)] (Some [''geo'']) (Some [''value'']) None = Inl TypeError
   \<and> (\<exists>p. parse_row Inr Inr [''geo'' \<mapsto> Some (1 :: nat)] (Some [''geo'']) (Some [''value'']) None = Inr p
        \<and> p ''value'' = Some None \<and> p ''geo'' = Some (Some 1))"
proof -
  let ?row = "[''value'' \<mapsto> None, ''geo'' \<mapsto> Some (1 :: nat)]"
  let ?row2 = "[''geo'' \<mapsto> Some (1 :: nat)]"
  have e1: "parse_row Inr Inr ?row (Some [''geo'']) (Some [''value'']) None = Inl TypeError"
    by (simp add: parse_row_def truthy_def row_get_def coerce_def)
  have e2: "parse_row Inr Inr ?row2 (Some [''geo'']) (Some [''value'']) None
      = Inr [''geo'' \<mapsto> Some 1, ''value'' \<mapsto> None]"
    by (simp add: parse_row_def truthy_def row_get_def coerce_def)
  note T = parse_row_absent_null_string [of Inr Inr ?row2 "Some [''geo'']" "Some [''value'']" None
      "[''geo'' \<mapsto> Some 1, ''value'' \<mapsto> None]" "''value''"]
  from T [THEN conjunct1] e2 have "[''geo'' \<mapsto> Some (1 :: nat), ''value'' \<mapsto> None] ''value'' = Some None"
    by (simp add: declared_def)
  moreover from T [THEN conjunct2, THEN conjunct2, THEN conjunct1] e2
  have "[''geo'' \<mapsto> Some (1 :: nat), ''value'' \<mapsto> None] ''geo'' = Some (Some 1)"
    by (simp add: declared_def row_get_def)
  ultimately show ?thesis using e1 e2 by simp
qed

section \<open>Properties of the security layer\<close>

subsection \<open>The deprecation schedule\<close>

lemma load_constants_Inr:
  "load_constants cutover = Inr c \<Longrightarrow>
     API_KEY_REQUIRED_STARTING_AT c = cutover \<and> API_KEY_HARD_WARNING c = cutover - 14
     \<and> API_KEY_SOFT_WARNING c = cutover - 28"
  by (auto simp: load_constants_def date_minus_days_def split: if_splits)

text \<open>
  Claim C4. Once the module has loaded with the cutover date
  \<^verbatim>\<open>API_KEY_REQUIRED_STARTING_AT\<close>, the hard-warning date is the cutover minus 14 days
  and the soft-warning date the hard-warning date minus 14 days, and for every date
  \<open>today\<close>: \<^verbatim>\<open>show_soft_api_key_warning()\<close> is true exactly when the caller is
  anonymous and soft \<open>\<le>\<close> today \<open><\<close> hard; \<^verbatim>\<open>show_hard_api_key_warning()\<close> exactly
  when the caller is anonymous and hard \<open>\<le>\<close> today \<open><\<close> cutover;
  \<^verbatim>\<open>require_api_key()\<close> exactly when today \<open>\<ge>\<close> cutover, whoever calls; and both
  warnings are false for an authenticated caller on every date.
\<close>

theorem api_key_deprecation_classification:
  assumes "load_constants cutover = Inr c"
  shows "API_KEY_HARD_WARNING c = API_KEY_REQUIRED_STARTING_AT c - 14
       \<and> API_KEY_SOFT_WARNING c = API_KEY_HARD_WARNING c - 14
       \<and> (show_soft_api_key_warning c cu today
            \<longleftrightarrow> cu = None \<and> API_KEY_SOFT_WARNING c \<le> today \<and> today < API_KEY_HARD_WARNING c)
       \<and> (show_soft_api_key_warning c cu today
            \<longleftrightarrow> cu = None \<and> cutover - 28 \<le> today \<and> today < cutover - 14)
       \<and> (show_hard_api_key_warning c cu today
            \<longleftrightarrow> cu = None \<and> cutover - 14 \<le> today \<and> today < cutover)
       \<and> (require_api_key c today \<longleftrightarrow> cutover \<le> today)
       \<and> (cu \<noteq> None \<longrightarrow> \<not> show_soft_api_key_warning c cu today \<and> \<not> show_hard_api_key_warning c cu today)"
  using load_constants_Inr [OF assms]
  by (simp add: show_soft_api_key_warning_def show_hard_api_key_warning_def require_api_key_def)

text \<open>
  The cutover 2023-06-21 (ordinal 738692) and an anonymous call on 2023-05-30
  (ordinal 738670), inside the soft-warning period.
\<close>

theorem api_key_deprecation_classification_witness:
  "load_constants 738692 = Inr \<lparr>API_KEY_REQUIRED_STARTING_AT = 738692, API_KEY_HARD_WARNING = 738678,
      API_KEY_SOFT_WARNING = 738664\<rparr>
   \<and> show_soft_api_key_warning \<lparr>API_KEY_REQUIRED_STARTING_AT = 738692, API_KEY_HARD_WARNING = 738678,
      API_KEY_SOFT_WARNING = 738664\<rparr> None 738670
   \<and> \<not> show_hard_api_key_warning \<lparr>API_KEY_REQUIRED_STARTING_AT = 738692, API_KEY_HARD_WARNING = 738678,
      API_KEY_SOFT_WARNING = 738664\<rparr> None 738670
   \<and> \<not> require_api_key \<lparr>API_KEY_REQUIRED_STARTING_AT = 738692, API_KEY_HARD_WARNING = 738678,
      API_KEY_SOFT_WARNING = 738664\<rparr> 738670"
proof -
  let ?c = "\<lparr>API_KEY_REQUIRED_STARTING_AT = 738692, API_KEY_HARD_WARNING = 738678,
      API_KEY_SOFT_WARNING = 738664\<rparr>"
  have l: "load_constants 738692 = Inr ?c"
    by (simp add: load_constants_def date_minus_days_def date_min_def date_max_def)
  from api_key_deprecation_classification [OF l, of None 738670] l show ?thesis by simp
qed

subsection \<open>Token resolution\<close>

lemma first_param_three:
  "first_param [a, b, c] vs =
     (case map_of vs a of Some v \<Rightarrow> Some v
      | None \<Rightarrow> (case map_of vs b of Some v \<Rightarrow> Some v | None \<Rightarrow> map_of vs c))"
  by (simp split: option.splits)

text \<open>
  Claim C5. \<^verbatim>\<open>resolve_auth_token\<close> returns the value of the first request parameter
  present among \<^verbatim>\<open>auth\<close>, \<^verbatim>\<open>api_key\<close>, \<^verbatim>\<open>token\<close>, in that order. With none of
  them present and Basic credentials whose username is exactly \<^verbatim>\<open>epidata\<close>, it
  returns the Basic password. Otherwise, with an \<^verbatim>\<open>Authorization\<close> header that
  starts with \<^verbatim>\<open>Bearer \<close>, it returns the rest of the header. Otherwise it returns
  no token. In particular a \<^verbatim>\<open>token\<close> parameter wins over Basic credentials.
\<close>

theorem resolve_auth_token_precedence:
  "(map_of (request_values r) ''auth'' = Some v \<longrightarrow> resolve_auth_token r = Some v)
   \<and> (map_of (request_values r) ''auth'' = None \<and> map_of (request_values r) ''api_key'' = Some v
        \<longrightarrow> resolve_auth_token r = Some v)
   \<and> (map_of (request_values r) ''auth'' = None \<and> map_of (request_values r) ''api_key'' = None
        \<and> map_of (request_values r) ''token'' = Some v
        \<longrightarrow> resolve_auth_token r = Some v)
   \<and> (map_of (request_values r) ''auth'' = None \<and> map_of (request_values r) ''api_key'' = None
        \<and> map_of (request_values r) ''token'' = None
        \<and> request_authorization r = Some a \<and> username a = Some ''epidata''
        \<longrightarrow> resolve_auth_token r = password a)
   \<and> (map_of (request_values r) ''auth'' = None \<and> map_of (request_values r) ''api_key'' = None
        \<and> map_of (request_values r) ''token'' = None
        \<and> (request_authorization r = None
             \<or> (\<exists>b. request_authorization r = Some b \<and> username b \<noteq> Some ''epidata''))
        \<and> request_headers r ''Authorization'' = Some h \<and> startswith h ''Bearer ''
        \<longrightarrow> resolve_auth_token r = Some (drop (length ''Bearer '') h))
   \<and> (map_of (request_values r) ''auth'' = None \<and> map_of (request_values r) ''api_key'' = None
        \<and> map_of (request_values r) ''token'' = None
        \<and> (request_authorization r = None
             \<or> (\<exists>b. request_authorization r = Some b \<and> username b \<noteq> Some ''epidata''))
        \<and> (request_headers r ''Authorization'' = None
             \<or> (\<exists>h'. request_headers r ''Authorization'' = Some h' \<and> \<not> startswith h' ''Bearer ''))
        \<longrightarrow> resolve_auth_token r = None)"
  unfolding resolve_auth_token_def first_param_three bearer_token_def
  by (auto simp: startswith_def split: option.splits)

text \<open>
  A request with the parameter \<^verbatim>\<open>token=abc\<close> and the Basic credentials
  \<^verbatim>\<open>epidata:key\<close> resolves to \<^verbatim>\<open>abc\<close>.
\<close>

theorem resolve_auth_token_precedence_witness:
  "resolve_auth_token \<lparr>request_values = [(''token'', ''abc'')],
      request_authorization = Some \<lparr>username = Some ''epidata'', password = Some ''key''\<rparr>,
      request_headers = Map.empty, request_path = ''/epidata/covidcast''\<rparr> = Some ''abc''"
proof -
  let ?r = "\<lparr>request_values = [(''token'', ''abc'')],
      request_authorization = Some \<lparr>username = Some ''epidata'', password = Some ''key''\<rparr>,
      request_headers = Map.empty, request_path = ''/epidata/covidcast''\<rparr>"
  from resolve_auth_token_precedence [of ?r "''abc''", THEN conjunct2, THEN conjunct2, THEN conjunct1]
  show ?thesis by simp
qed

subsection \<open>Public routes and the role guard\<close>

lemma any_route_iff:
  "any_route url_prefix p routes \<longleftrightarrow> (\<exists>route \<in> set routes. startswith p (url_prefix @ ''/'' @ route))"
  by (induction routes) auto

lemma current_user_path:
  "current_user find_user (request\<lparr>request_path := p\<rparr>) g = current_user find_user request g"
  by (simp add: current_user_def get_current_user_def resolve_auth_token_def bearer_token_def
      split: option.splits)

text \<open>
  Claim C6, as the code has it. \<^verbatim>\<open>_is_public_route()\<close> is true exactly of the
  requests whose path starts with \<^verbatim>\<open>URL_PREFIX/lib\<close>, \<^verbatim>\<open>URL_PREFIX/admin\<close> or
  \<^verbatim>\<open>URL_PREFIX/version\<close>. The role guard does not consult it: with no role required
  \<^verbatim>\<open>require_role\<close> gives the handler back; with a role required the wrapped handler
  raises \<^verbatim>\<open>Unauthorized\<close> for an anonymous caller and for a user lacking the role,
  runs the handler for a user holding the role, and none of this changes with the
  path of the request.
\<close>

theorem public_route_and_role_guard:
  "(is_public_route url_prefix request
      \<longleftrightarrow> startswith (request_path request) (url_prefix @ ''/lib'')
        \<or> startswith (request_path request) (url_prefix @ ''/admin'')
        \<or> startswith (request_path request) (url_prefix @ ''/version''))
   \<and> (required_role = [] \<longrightarrow>
        require_role required_role f (current_user find_user request g) args = f args)
   \<and> (required_role \<noteq> [] \<and> current_user find_user request g = None \<longrightarrow>
        require_role required_role f (current_user find_user request g) args = Inl Unauthorized)
   \<and> (required_role \<noteq> [] \<and> current_user find_user request g = Some u \<and> \<not> has_role u required_role \<longrightarrow>
        require_role required_role f (current_user find_user request g) args = Inl Unauthorized)
   \<and> (required_role \<noteq> [] \<and> current_user find_user request g = Some u \<and> has_role u required_role \<longrightarrow>
        require_role required_role f (current_user find_user request g) args = f args)
   \<and> require_role required_role f (current_user find_user (request\<lparr>request_path := p\<rparr>) g) args
        = require_role required_role f (current_user find_user request g) args"
  by (simp add: is_public_route_def any_route_iff public_routes_list_def require_role_def current_user_path)

text \<open>An anonymous request for \<^verbatim>\<open>/epidata/version\<close> under the role \<^verbatim>\<open>quidel\<close>.\<close>

theorem public_route_and_role_guard_witness:
  "is_public_route ''/epidata'' \<lparr>request_values = [], request_authorization = None,
      request_headers = Map.empty, request_path = ''/epidata/version''\<rparr>
   \<and> require_role ''quidel'' (\<lambda>x. Inr x)
        (current_user (\<lambda>k. None) \<lparr>request_values = [], request_authorization = None,
           request_headers = Map.empty, request_path = ''/epidata/version''\<rparr> None) ()
      = Inl Unauthorized"
proof -
  let ?r = "\<lparr>request_values = [], request_authorization = None,
      request_headers = Map.empty, request_path = ''/epidata/version''\<rparr>"
  have anon: "current_user (\<lambda>k. None) ?r None = None"
    by (simp add: current_user_def get_current_user_def)
  note T = public_route_and_role_guard [of "''/epidata''" ?r "''quidel''" "\<lambda>x. Inr x" "\<lambda>k. None" None "()"]
  from T [THEN conjunct1] have 1: "is_public_route ''/epidata'' ?r"
    by (simp add: startswith_def)
  from T [THEN conjunct2, THEN conjunct2, THEN conjunct1] anon
  have 2: "require_role ''quidel'' (\<lambda>x. Inr x) (current_user (\<lambda>k. None) ?r None) () = Inl Unauthorized"
    by simp
  from 1 2 show ?thesis by simp
qed

text \<open>
  Claim C6 as the specification words it (a handler wrapped with \<^verbatim>\<open>require_role\<close>
  never rejects a request for an allowlisted path) does not hold: an anonymous request
  for \<^verbatim>\<open>/epidata/lib/index.js\<close> is on the allowlist and is rejected by the guard of
  the role \<^verbatim>\<open>quidel\<close>.
\<close>

theorem public_route_still_rejected:
  "is_public_route ''/epidata'' \<lparr>request_values = [], request_authorization = None,
      request_headers = Map.empty, request_path = ''/epidata/lib/index.js''\<rparr>
   \<and> current_user (\<lambda>k. None) \<lparr>request_values = [], request_authorization = None,
        request_headers = Map.empty, request_path = ''/epidata/lib/index.js''\<rparr> None = None
   \<and> require_role ''quidel'' (\<lambda>x. Inr x)
        (current_user (\<lambda>k. None) \<lparr>request_values = [], request_authorization = None,
           request_headers = Map.empty, request_path = ''/epidata/lib/index.js''\<rparr> None) ()
      = Inl Unauthorized"
  by (simp add: is_public_route_def public_routes_list_def startswith_def require_role_def
      current_user_def get_current_user_def)

section \<open>Properties of the covidcast signal database\<close>

subsection \<open>One row of the load table\<close>

lemma find_NoneD: "find P xs = None \<Longrightarrow> x \<in> set xs \<Longrightarrow> \<not> P x"
  by (induction xs) (auto split: if_splits)

lemma find_SomeI: "x \<in> set xs \<Longrightarrow> P x \<Longrightarrow> \<exists>y. find P xs = Some y"
  by (induction xs) auto

lemma find_in_set: "find P xs = Some x \<Longrightarrow> x \<in> set xs \<and> P x"
  by (induction xs) (auto split: if_splits)

lemma same_version_key: "same_version r h \<Longrightarrow> same_key r h"
  by (simp add: same_version_def same_key_def)

lemma same_key_sym: "same_key (snd a) b \<longleftrightarrow> same_key (snd b) a"
  by (auto simp: same_key_def)

lemma same_key_trans: "same_key (snd a) b \<Longrightarrow> same_key (snd b) c \<Longrightarrow> same_key (snd a) c"
  by (auto simp: same_key_def)

lemma same_version_refl: "same_version (snd l) l"
  by (simp add: same_version_def)

lemma same_key_refl: "same_key (snd l) l"
  by (simp add: same_key_def)

lemma reconcile_history_mono: "set history \<subseteq> set (reconcile_history history l)"
  by (auto simp: reconcile_history_def split: option.splits)

lemma reconcile_history_new: "set (reconcile_history history l) \<subseteq> insert l (set history)"
  by (auto simp: reconcile_history_def split: option.splits)

lemma reconcile_history_has:
  "\<exists>h \<in> set (reconcile_history history l). same_version (snd l) h"
  by (auto simp: reconcile_history_def same_version_refl split: option.splits dest: find_in_set)

lemma reconcile_step_ok:
  assumes ok: "tables_ok history latest n" and fresh: "n \<le> fst l"
  shows "tables_ok (reconcile_history history l) (reconcile_latest latest l) (Suc (fst l))"
proof -
  from ok have sub: "set latest \<subseteq> set history"
    and uh: "\<And>h h'. h \<in> set history \<Longrightarrow> h' \<in> set history \<Longrightarrow> same_version (snd h) h' \<Longrightarrow> h' = h"
    and ul: "\<And>a b. a \<in> set latest \<Longrightarrow> b \<in> set latest \<Longrightarrow> same_key (snd a) b \<Longrightarrow> b = a"
    and cov: "\<And>h. h \<in> set history \<Longrightarrow> \<exists>a \<in> set latest. same_key (snd h) a \<and> cc_issue (snd h) \<le> cc_issue (snd a)"
    and ids: "\<And>h. h \<in> set history \<Longrightarrow> fst h < n"
    unfolding tables_ok_def by blast+
  from ids fresh have ids': "\<And>h. h \<in> set history \<Longrightarrow> fst h < Suc (fst l)" by fastforce
  show ?thesis
  proof (cases "find (same_version (snd l)) history")
    case (Some h0)
    then have h0: "h0 \<in> set history" "same_version (snd l) h0" by (auto dest: find_in_set)
    from cov [OF h0(1)] obtain a where a: "a \<in> set latest" "same_key (snd h0) a"
      "cc_issue (snd h0) \<le> cc_issue (snd a)" by blast
    from h0(2) a(2) have ka: "same_key (snd l) a" by (auto simp: same_version_def same_key_def)
    from h0(2) a(3) have ia: "cc_issue (snd l) \<le> cc_issue (snd a)" by (simp add: same_version_def)
    from find_SomeI [where P = "same_key (snd l)", OF a(1) ka] obtain old where old: "find (same_key (snd l)) latest = Some old"
      by blast
    then have "old \<in> set latest" "same_key (snd l) old" by (auto dest: find_in_set)
    with ka a(1) ul [of a old] have "old = a" by (auto simp: same_key_def)
    with old ia have T: "reconcile_latest latest l = latest" by (simp add: reconcile_latest_def)
    from Some have H: "reconcile_history history l = history" by (simp add: reconcile_history_def)
    from ok ids' show ?thesis unfolding T H tables_ok_def by blast
  next
    case None
    then have H: "reconcile_history history l = history @ [l]" by (simp add: reconcile_history_def)
    from None have nov: "\<And>h. h \<in> set history \<Longrightarrow> \<not> same_version (snd l) h"
      by (rule find_NoneD)
    have nov': "\<not> same_version (snd h) l" if "h \<in> set history" for h
      using nov [OF that] by (auto simp: same_version_def)
    have uh': "\<forall>h \<in> set (history @ [l]). \<forall>h' \<in> set (history @ [l]). same_version (snd h) h' \<longrightarrow> h' = h"
      using uh nov nov' by auto
    have ids'': "\<forall>h \<in> set (history @ [l]). fst h < Suc (fst l)" using ids' by auto
    show ?thesis
    proof (cases "find (same_key (snd l)) latest")
      case N: None
      then have T: "reconcile_latest latest l = latest @ [l]" by (simp add: reconcile_latest_def)
      from N have nok: "\<And>a. a \<in> set latest \<Longrightarrow> \<not> same_key (snd l) a" by (rule find_NoneD)
      have nok': "\<not> same_key (snd a) l" if "a \<in> set latest" for a
        using nok [OF that] by (auto simp: same_key_def)
      have 1: "set (latest @ [l]) \<subseteq> set (history @ [l])" using sub by auto
      have 3: "\<forall>a \<in> set (latest @ [l]). \<forall>b \<in> set (latest @ [l]). same_key (snd a) b \<longrightarrow> b = a"
        using ul nok nok' by auto
      have 4: "\<forall>h \<in> set (history @ [l]). \<exists>a \<in> set (latest @ [l]). same_key (snd h) a \<and> cc_issue (snd h) \<le> cc_issue (snd a)"
        using cov same_key_refl [of l] by fastforce
      from 1 uh' 3 4 ids'' show ?thesis unfolding T H tables_ok_def by blast
    next
      case (Some old)
      then have old: "old \<in> set latest" "same_key (snd l) old" by (auto dest: find_in_set)
      have only: "a = old" if "a \<in> set latest" "same_key (snd l) a" for a
        using that old ul [of old a] by (auto simp: same_key_def)
      show ?thesis
      proof (cases "cc_issue (snd old) < cc_issue (snd l)")
        case True
        with Some have T: "reconcile_latest latest l = filter (\<lambda>x. x \<noteq> old) latest @ [l]"
          by (simp add: reconcile_latest_def)
        let ?T = "filter (\<lambda>x. x \<noteq> old) latest @ [l]"
        have 1: "set ?T \<subseteq> set (history @ [l])" using sub by auto
        have 3: "\<forall>a \<in> set ?T. \<forall>b \<in> set ?T. same_key (snd a) b \<longrightarrow> b = a"
        proof (intro ballI impI)
          fix a b assume a: "a \<in> set ?T" and b: "b \<in> set ?T" and k: "same_key (snd a) b"
          show "b = a"
          proof (cases "a = l")
            case al: True
            show ?thesis
            proof (cases "b = l")
              case True with al show ?thesis by simp
            next
              case False
              with b have "b \<in> set latest" "b \<noteq> old" by auto
              with only [of b] k al show ?thesis by auto
            qed
          next
            case anl: False
            with a have a': "a \<in> set latest" "a \<noteq> old" by auto
            show ?thesis
            proof (cases "b = l")
              case True
              with k have "same_key (snd l) a" by (simp add: same_key_def)
              with only [of a] a' show ?thesis by auto
            next
              case False
              with b have "b \<in> set latest" by auto
              with a' k ul show ?thesis by blast
            qed
          qed
        qed
        have 4: "\<forall>h \<in> set (history @ [l]). \<exists>a \<in> set ?T. same_key (snd h) a \<and> cc_issue (snd h) \<le> cc_issue (snd a)"
        proof
          fix h assume "h \<in> set (history @ [l])"
          then consider "h = l" | "h \<in> set history" by auto
          then show "\<exists>a \<in> set ?T. same_key (snd h) a \<and> cc_issue (snd h) \<le> cc_issue (snd a)"
          proof cases
            case 1
            have "l \<in> set ?T" by simp
            with 1 same_key_refl [of l] show ?thesis by blast
          next
            case 2
            from cov [OF 2] obtain a where a: "a \<in> set latest" "same_key (snd h) a"
              "cc_issue (snd h) \<le> cc_issue (snd a)" by blast
            show ?thesis
            proof (cases "a = old")
              case True
              with a old True \<open>cc_issue (snd old) < cc_issue (snd l)\<close>
              have "same_key (snd h) l \<and> cc_issue (snd h) \<le> cc_issue (snd l)"
                by (auto simp: same_key_def)
              moreover have "l \<in> set ?T" by simp
              ultimately show ?thesis by blast
            next
              case False
              with a have "a \<in> set ?T" by simp
              with a show ?thesis by blast
            qed
          qed
        qed
        from 1 uh' 3 4 ids'' show ?thesis unfolding T H tables_ok_def by blast
      next
        case False
        with Some have T: "reconcile_latest latest l = latest" by (simp add: reconcile_latest_def)
        have 1: "set latest \<subseteq> set (history @ [l])" using sub by auto
        have 4: "\<forall>h \<in> set (history @ [l]). \<exists>a \<in> set latest. same_key (snd h) a \<and> cc_issue (snd h) \<le> cc_issue (snd a)"
        proof
          fix h assume "h \<in> set (history @ [l])"
          then consider "h = l" | "h \<in> set history" by auto
          then show "\<exists>a \<in> set latest. same_key (snd h) a \<and> cc_issue (snd h) \<le> cc_issue (snd a)"
          proof cases
            case 1
            with old False show ?thesis by (intro bexI [of _ old]) auto
          next
            case 2
            from cov [OF 2] show ?thesis .
          qed
        qed
        from ok have 3: "\<forall>a \<in> set latest. \<forall>b \<in> set latest. same_key (snd a) b \<longrightarrow> b = a"
          unfolding tables_ok_def by blast
        from 1 uh' 3 4 ids'' show ?thesis unfolding T H tables_ok_def by blast
      qed
    qed
  qed
qed

subsection \<open>A whole batch, and sequences of batches\<close>

lemma insert_load_ids:
  "l \<in> set (insert_load n rows) \<Longrightarrow> n \<le> fst l \<and> fst l < n + length rows \<and> snd l \<in> set rows"
  by (induction rows arbitrary: n) fastforce+

lemma insert_load_has: "r \<in> set rows \<Longrightarrow> \<exists>d. (d, r) \<in> set (insert_load n rows)"
  by (induction rows arbitrary: n) auto

lemma reconcile_ok:
  "tables_ok history latest n \<Longrightarrow>
   tables_ok (fst (reconcile (history, latest) (insert_load n rows)))
             (snd (reconcile (history, latest) (insert_load n rows))) (n + length rows)"
proof (induction rows arbitrary: history latest n)
  case Nil
  then show ?case by simp
next
  case (Cons r rows)
  from reconcile_step_ok [OF Cons.prems, of "(n, r)"]
  have "tables_ok (reconcile_history history (n, r)) (reconcile_latest latest (n, r)) (Suc n)"
    by simp
  from Cons.IH [OF this] show ?case by simp
qed

lemma reconcile_mono: "set history \<subseteq> set (fst (reconcile (history, latest) ls))"
proof (induction ls arbitrary: history latest)
  case Nil
  show ?case by simp
next
  case (Cons l ls)
  from Cons.IH [of "reconcile_history history l" "reconcile_latest latest l"]
    reconcile_history_mono [of history l]
  show ?case by auto
qed

lemma reconcile_new:
  "set (fst (reconcile (history, latest) ls)) \<subseteq> set history \<union> set ls"
proof (induction ls arbitrary: history latest)
  case Nil
  show ?case by simp
next
  case (Cons l ls)
  from Cons.IH [of "reconcile_history history l" "reconcile_latest latest l"]
    reconcile_history_new [of history l]
  show ?case by auto
qed

lemma reconcile_has:
  "l \<in> set ls \<Longrightarrow> \<exists>h \<in> set (fst (reconcile (history, latest) ls)). same_version (snd l) h"
proof (induction ls arbitrary: history latest)
  case Nil
  then show ?case by simp
next
  case (Cons x ls)
  show ?case
  proof (cases "l = x")
    case True
    from reconcile_history_has [of history x] obtain h
      where "h \<in> set (reconcile_history history x)" "same_version (snd x) h" by blast
    with True reconcile_mono [of "reconcile_history history x" "reconcile_latest latest x" ls]
    show ?thesis by auto
  next
    case False
    with Cons.prems have "l \<in> set ls" by simp
    from Cons.IH [OF this] show ?thesis by simp
  qed
qed

lemma batch_tables:
  assumes "signal_load db = []"
  shows "insert_or_update_batch db rows =
     (Inr (), db\<lparr>signal_load := [],
        signal_latest := snd (reconcile (signal_history db, signal_latest db) (insert_load (next_id db) rows)),
        signal_history := fst (reconcile (signal_history db, signal_latest db) (insert_load (next_id db) rows)),
        signal_dim := fst (resolve_dims (signal_dim db, geo_dim db) (insert_load (next_id db) rows)),
        geo_dim := snd (resolve_dims (signal_dim db, geo_dim db) (insert_load (next_id db) rows)),
        next_id := next_id db + length rows\<rparr>)"
  using assms by (simp add: insert_or_update_batch_def Let_def split: prod.splits)

lemma batch_ok: "db_ok db \<Longrightarrow> db_ok (snd (insert_or_update_batch db rows))"
  by (simp add: db_ok_def batch_tables reconcile_ok)

lemma run_batches_ok: "db_ok db \<Longrightarrow> db_ok (run_batches db batches)"
  by (induction batches arbitrary: db) (simp_all add: batch_ok)

lemma empty_db_ok: "db_ok empty_db"
  by (simp add: db_ok_def empty_db_def tables_ok_def)

lemma tables_ok_id_sync:
  assumes "tables_ok (signal_history db) (signal_latest db) n"
  shows "id_sync db"
  unfolding id_sync_def
proof (intro ballI conjI impI)
  fix l assume l: "l \<in> set (signal_latest db)"
  with assms have lh: "l \<in> set (signal_history db)" unfolding tables_ok_def by blast
  with same_version_refl [of l] show "\<exists>h \<in> set (signal_history db). same_version (snd l) h" by blast
  fix h assume "h \<in> set (signal_history db)" "same_version (snd l) h"
  with lh assms have "h = l" unfolding tables_ok_def by blast
  then show "fst h = fst l" by simp
qed

lemma reissue:
  assumes ok: "db_ok db" and l: "l \<in> set (signal_latest db)" and r: "r \<in> set rows"
    and k: "same_key r l" and i: "cc_issue (snd l) < cc_issue r"
  defines "db' \<equiv> snd (insert_or_update_batch db rows)"
  shows "l \<notin> set (signal_latest db') \<and> l \<in> set (signal_history db')
     \<and> (\<exists>l' \<in> set (signal_latest db'). same_key r l' \<and> cc_issue r \<le> cc_issue (snd l')
          \<and> l' \<in> set (signal_history db') \<and> l' \<in> set (insert_load (next_id db) rows)
          \<and> next_id db \<le> fst l' \<and> fst l' \<noteq> fst l)"
proof -
  let ?ld = "insert_load (next_id db) rows"
  let ?H = "signal_history db" and ?T = "signal_latest db"
  from ok have load: "signal_load db = []" and t: "tables_ok ?H ?T (next_id db)"
    by (simp_all add: db_ok_def)
  have H': "signal_history db' = fst (reconcile (?H, ?T) ?ld)"
    and T': "signal_latest db' = snd (reconcile (?H, ?T) ?ld)"
    by (simp_all add: db'_def batch_tables [OF load])
  from batch_ok [OF ok, of rows] have t': "tables_ok (signal_history db') (signal_latest db') (next_id db')"
    by (simp add: db_ok_def db'_def)
  from t l have lH: "l \<in> set ?H" unfolding tables_ok_def by blast
  with reconcile_mono [of ?H ?T ?ld] have lH': "l \<in> set (signal_history db')" by (auto simp: H')
  from insert_load_has [OF r] obtain d where d: "(d, r) \<in> set ?ld" by blast
  from reconcile_has [OF d, of ?H ?T] obtain h where h: "h \<in> set (signal_history db')"
    "same_version r h" by (auto simp: H')
  from t' h(1) obtain l' where l': "l' \<in> set (signal_latest db')" "same_key (snd h) l'"
    "cc_issue (snd h) \<le> cc_issue (snd l')" unfolding tables_ok_def by blast
  from h(2) l'(2) have kl': "same_key r l'" by (auto simp: same_version_def same_key_def)
  from h(2) l'(3) have il': "cc_issue r \<le> cc_issue (snd l')" by (simp add: same_version_def)
  from k kl' have kk: "same_key (snd l) l'" by (auto simp: same_key_def)
  have ne: "l' \<noteq> l" using il' i by auto
  have notin: "l \<notin> set (signal_latest db')"
  proof
    assume "l \<in> set (signal_latest db')"
    with t' l'(1) kk have "l' = l" unfolding tables_ok_def by blast
    with ne show False by simp
  qed
  from t' l'(1) have l'H: "l' \<in> set (signal_history db')" unfolding tables_ok_def by blast
  have new: "l' \<notin> set ?H"
  proof
    assume old: "l' \<in> set ?H"
    with t obtain a where a: "a \<in> set ?T" "same_key (snd l') a" "cc_issue (snd l') \<le> cc_issue (snd a)"
      unfolding tables_ok_def by blast
    from kk a(2) have "same_key (snd l) a" by (auto simp: same_key_def)
    with t l a(1) have "a = l" unfolding tables_ok_def by blast
    with a(3) il' i show False by simp
  qed
  with l'H reconcile_new [of ?H ?T ?ld] have ld: "l' \<in> set ?ld" by (auto simp: H')
  then have lo: "next_id db \<le> fst l'" by (auto dest: insert_load_ids)
  from t lH have "fst l < next_id db" unfolding tables_ok_def by blast
  with lo have "fst l' \<noteq> fst l" by simp
  with notin lH' l'(1) kl' il' l'H lo ld show ?thesis by blast
qed

subsection \<open>Id-sync and reissue\<close>

lemma run_batches_append:
  "run_batches db (batches @ [rows]) = snd (insert_or_update_batch (run_batches db batches) rows)"
  by (induction batches arbitrary: db) simp_all

text \<open>
  Claim C1. After any sequence of batches on the empty database, every Latest row has
  a History row for its natural key and issue, and each such History row carries the
  same surrogate id (\<open>id_sync\<close>); the next batch is accepted. When that batch brings a
  row of the natural key of a Latest row at a strictly higher issue, then afterwards
  the old row is no longer in Latest and is still in History, and Latest holds for the
  key a row of at least the new issue, also in History, whose surrogate id is fresh (not
  below the ids given out so far) and differs from the old row's; when the batch is
  that row alone, the new Latest row is the row itself under the next surrogate id.
\<close>

theorem latest_history_id_sync:
  "id_sync (run_batches empty_db batches)
   \<and> fst (insert_or_update_batch (run_batches empty_db batches) rows) = Inr ()
   \<and> (\<forall>l \<in> set (signal_latest (run_batches empty_db batches)). \<forall>r \<in> set rows.
        same_key r l \<and> cc_issue (snd l) < cc_issue r \<longrightarrow>
          l \<notin> set (signal_latest (run_batches empty_db (batches @ [rows])))
          \<and> l \<in> set (signal_history (run_batches empty_db (batches @ [rows])))
          \<and> (\<exists>l' \<in> set (signal_latest (run_batches empty_db (batches @ [rows]))).
                same_key r l' \<and> cc_issue r \<le> cc_issue (snd l')
                \<and> l' \<in> set (signal_history (run_batches empty_db (batches @ [rows])))
                \<and> next_id (run_batches empty_db batches) \<le> fst l' \<and> fst l' \<noteq> fst l
                \<and> (rows = [r] \<longrightarrow> l' = (next_id (run_batches empty_db batches), r))))"
proof -
  let ?db = "run_batches empty_db batches"
  have ok: "db_ok ?db" by (rule run_batches_ok [OF empty_db_ok])
  then have 1: "id_sync ?db" by (auto simp: db_ok_def intro: tables_ok_id_sync)
  from ok have 2: "fst (insert_or_update_batch ?db rows) = Inr ()"
    by (simp add: db_ok_def batch_tables)
  have 3: "l \<notin> set (signal_latest (run_batches empty_db (batches @ [rows])))
          \<and> l \<in> set (signal_history (run_batches empty_db (batches @ [rows])))
          \<and> (\<exists>l' \<in> set (signal_latest (run_batches empty_db (batches @ [rows]))).
                same_key r l' \<and> cc_issue r \<le> cc_issue (snd l')
                \<and> l' \<in> set (signal_history (run_batches empty_db (batches @ [rows])))
                \<and> next_id ?db \<le> fst l' \<and> fst l' \<noteq> fst l
                \<and> (rows = [r] \<longrightarrow> l' = (next_id ?db, r)))"
    if "l \<in> set (signal_latest ?db)" "r \<in> set rows" "same_key r l" "cc_issue (snd l) < cc_issue r"
    for l r
    using reissue [OF ok that] unfolding run_batches_append by fastforce
  from 1 2 3 show ?thesis by blast
qed

text \<open>The two inserts of \<^verbatim>\<open>test_id_sync\<close>.\<close>

theorem latest_history_id_sync_witness:
  "(1, dummy_row) \<in> set (signal_latest (run_batches empty_db [[dummy_row]]))
   \<and> (1, dummy_row) \<notin> set (signal_latest (run_batches empty_db [[dummy_row], [next_row]]))
   \<and> (1, dummy_row) \<in> set (signal_history (run_batches empty_db [[dummy_row], [next_row]]))
   \<and> (2, next_row) \<in> set (signal_latest (run_batches empty_db [[dummy_row], [next_row]]))
   \<and> (2, next_row) \<in> set (signal_history (run_batches empty_db [[dummy_row], [next_row]]))"
proof -
  have db1: "signal_latest (run_batches empty_db [[dummy_row]]) = [(1, dummy_row)]"
    and n1: "next_id (run_batches empty_db [[dummy_row]]) = 2"
    by (simp_all add: insert_or_update_batch_def empty_db_def reconcile_latest_def reconcile_history_def Let_def)
  have k: "same_key next_row (1, dummy_row)"
    and i: "cc_issue (snd (1 :: nat, dummy_row)) < cc_issue next_row"
    by (simp_all add: same_key_def natural_key_def next_row_def)
  note T = latest_history_id_sync [of "[[dummy_row]]" "[next_row]", THEN conjunct2, THEN conjunct2,
      rule_format, of "(1, dummy_row)" next_row]
  from T db1 n1 k i show ?thesis by auto
qed

subsection \<open>The load-table precondition\<close>

text \<open>
  Claim C2. When the load table is not empty, \<^verbatim>\<open>insert_or_update_batch\<close> fails with
  the integrity error whatever the batch, adds one log entry, of the highest severity,
  and leaves Latest and History (and the load table, the dimension tables and the id
  counter) as they were. When the load table is empty the batch is accepted without an
  error and nothing is logged.
\<close>

theorem load_table_precondition:
  "(signal_load db \<noteq> [] \<longrightarrow>
      fst (insert_or_update_batch db rows) = Inl StorageIntegrityViolation
      \<and> signal_latest (snd (insert_or_update_batch db rows)) = signal_latest db
      \<and> signal_history (snd (insert_or_update_batch db rows)) = signal_history db
      \<and> signal_load (snd (insert_or_update_batch db rows)) = signal_load db
      \<and> signal_dim (snd (insert_or_update_batch db rows)) = signal_dim db
      \<and> geo_dim (snd (insert_or_update_batch db rows)) = geo_dim db
      \<and> next_id (snd (insert_or_update_batch db rows)) = next_id db
      \<and> length (db_log (snd (insert_or_update_batch db rows))) = Suc (length (db_log db))
      \<and> (\<forall>s. level s \<le> level (fst (last (db_log (snd (insert_or_update_batch db rows)))))))
   \<and> (signal_load db = [] \<longrightarrow>
      fst (insert_or_update_batch db rows) = Inr ()
      \<and> signal_load (snd (insert_or_update_batch db rows)) = []
      \<and> db_log (snd (insert_or_update_batch db rows)) = db_log db)"
proof -
  have lv: "level s \<le> 50" for s by (cases s) simp_all
  show ?thesis
    by (simp add: insert_or_update_batch_def Let_def lv split: prod.splits)
qed

text \<open>
  \<^verbatim>\<open>test_empty_load_table\<close>: the dummy row into the empty database, and into a
  database whose load table holds a row with the surrogate id 100.
\<close>

theorem load_table_precondition_witness:
  "fst (insert_or_update_batch (empty_db :: int signal_db) [dummy_row]) = Inr ()
   \<and> fst (insert_or_update_batch (empty_db\<lparr>signal_load := [(100, dummy_row)]\<rparr>) [dummy_row])
       = Inl StorageIntegrityViolation
   \<and> signal_latest (snd (insert_or_update_batch (empty_db\<lparr>signal_load := [(100, dummy_row)]\<rparr>) [dummy_row])) = []
   \<and> signal_history (snd (insert_or_update_batch (empty_db\<lparr>signal_load := [(100, dummy_row)]\<rparr>) [dummy_row])) = []
   \<and> fst (last (db_log (snd (insert_or_update_batch (empty_db\<lparr>signal_load := [(100, dummy_row)]\<rparr>) [dummy_row]))))
       = Critical"
proof -
  let ?bad = "empty_db\<lparr>signal_load := [(100 :: nat, dummy_row)]\<rparr>"
  have e: "signal_load (empty_db :: int signal_db) = []" and b: "signal_load ?bad \<noteq> []"
    and t: "signal_latest ?bad = []" "signal_history ?bad = []"
    by (simp_all add: empty_db_def)
  from load_table_precondition [of empty_db "[dummy_row]", THEN conjunct2, rule_format, OF e]
  have 1: "fst (insert_or_update_batch (empty_db :: int signal_db) [dummy_row]) = Inr ()" by simp
  from load_table_precondition [of ?bad "[dummy_row]", THEN conjunct1, rule_format, OF b] t
  have 2: "fst (insert_or_update_batch ?bad [dummy_row]) = Inl StorageIntegrityViolation"
    "signal_latest (snd (insert_or_update_batch ?bad [dummy_row])) = []"
    "signal_history (snd (insert_or_update_batch ?bad [dummy_row])) = []"
    by simp_all
  have 3: "fst (last (db_log (snd (insert_or_update_batch ?bad [dummy_row])))) = Critical"
    by (simp add: insert_or_update_batch_def empty_db_def)
  from 1 2 3 show ?thesis by simp
qed

section \<open>Properties of the nowcast endpoint\<close>

lemma max_issue_None: "max_issue is = None \<longleftrightarrow> is = []"
  by (cases "is") (simp_all split: option.splits)

lemma max_issue_Some:
  "max_issue is = Some m \<longleftrightarrow> m \<in> set is \<and> (\<forall>i \<in> set is. i \<le> m)"
proof (induction "is" arbitrary: m)
  case Nil
  show ?case by simp
next
  case (Cons i "is")
  show ?case
  proof (cases "max_issue is")
    case None
    then have "is = []" by (simp add: max_issue_None)
    with None show ?thesis by auto
  next
    case (Some m')
    with Cons.IH [of m'] have m': "m' \<in> set is" "\<forall>j \<in> set is. j \<le> m'" by simp_all
    with Some show ?thesis by (auto simp: max_def intro: order.antisym)
  qed
qed

lemma highest_issue_rows_iff:
  "r \<in> set (highest_issue_rows rows) \<longleftrightarrow>
     r \<in> set rows \<and> (\<forall>r' \<in> set rows. nowcast_key r' = nowcast_key r \<longrightarrow> nc_issue r' \<le> nc_issue r)"
  by (auto simp: highest_issue_rows_def max_issue_Some)

lemma matches_key: "nowcast_key r' = nowcast_key r \<Longrightarrow> matches q r' = matches q r"
  by (simp add: nowcast_key_def matches_def)

lemma highest_exists:
  assumes "r \<in> set rows"
  shows "\<exists>r' \<in> set (highest_issue_rows rows). nowcast_key r' = nowcast_key r"
proof -
  let ?same = "filter (\<lambda>r'. nowcast_key r' = nowcast_key r) rows"
  from assms have "map nc_issue ?same \<noteq> []" by (auto simp: filter_empty_conv)
  then obtain m where m: "max_issue (map nc_issue ?same) = Some m"
    by (cases "max_issue (map nc_issue ?same)") (auto simp: max_issue_None)
  then have "m \<in> set (map nc_issue ?same)" and top: "\<forall>i \<in> set (map nc_issue ?same). i \<le> m"
    by (simp_all add: max_issue_Some)
  then obtain r' where r': "r' \<in> set rows" "nowcast_key r' = nowcast_key r" "nc_issue r' = m"
    by auto
  with top have "r' \<in> set (highest_issue_rows rows)"
    by (auto simp: highest_issue_rows_iff)
  with r'(2) show ?thesis by blast
qed

text \<open>
  Claim C3. For every stored table and every query: with explicit issues, exactly the
  matching rows at those issues are selected (none for a key that has no row there);
  else with \<^verbatim>\<open>as_of\<close>, exactly the matching rows whose issue is the highest among the
  rows of their natural key that are not above the bound, and every matching key with
  a row not above the bound has one selected; else exactly the matching rows whose
  issue is the highest of their natural key, and every matching key has one. Where
  the table has one row per natural key and issue, the last two cases select one row
  per key.
\<close>

theorem nowcast_issue_selection:
  "(q_issues q = Some issues \<longrightarrow>
      (\<forall>r. r \<in> set (select_nowcast table q)
         \<longleftrightarrow> r \<in> set table \<and> matches q r \<and> nc_issue r \<in> set issues))
   \<and> (q_issues q = None \<and> q_as_of q = Some as_of \<longrightarrow>
      (\<forall>r. r \<in> set (select_nowcast table q)
         \<longleftrightarrow> r \<in> set table \<and> matches q r \<and> nc_issue r \<le> as_of
             \<and> (\<forall>r' \<in> set table. nowcast_key r' = nowcast_key r \<and> nc_issue r' \<le> as_of
                    \<longrightarrow> nc_issue r' \<le> nc_issue r))
      \<and> (\<forall>r \<in> set table. matches q r \<and> nc_issue r \<le> as_of \<longrightarrow>
            (\<exists>r' \<in> set (select_nowcast table q). nowcast_key r' = nowcast_key r)))
   \<and> (q_issues q = None \<and> q_as_of q = None \<longrightarrow>
      (\<forall>r. r \<in> set (select_nowcast table q)
         \<longleftrightarrow> r \<in> set table \<and> matches q r
             \<and> (\<forall>r' \<in> set table. nowcast_key r' = nowcast_key r \<longrightarrow> nc_issue r' \<le> nc_issue r))
      \<and> (\<forall>r \<in> set table. matches q r \<longrightarrow>
            (\<exists>r' \<in> set (select_nowcast table q). nowcast_key r' = nowcast_key r)))
   \<and> (q_issues q = None \<and> one_row_per_issue table \<longrightarrow>
      (\<forall>r \<in> set (select_nowcast table q). \<forall>r' \<in> set (select_nowcast table q).
         nowcast_key r' = nowcast_key r \<longrightarrow> r' = r))"
proof -
  have A: "r \<in> set (select_nowcast table q)
         \<longleftrightarrow> r \<in> set table \<and> matches q r \<and> nc_issue r \<in> set issues"
    if "q_issues q = Some issues" for r
    using that by (auto simp: select_nowcast_def)
  have B1: "r \<in> set (select_nowcast table q)
         \<longleftrightarrow> r \<in> set table \<and> matches q r \<and> nc_issue r \<le> as_of
             \<and> (\<forall>r' \<in> set table. nowcast_key r' = nowcast_key r \<and> nc_issue r' \<le> as_of
                    \<longrightarrow> nc_issue r' \<le> nc_issue r)"
    if "q_issues q = None" "q_as_of q = Some as_of" for r
    using that matches_key [of _ r q]
    by (auto simp: select_nowcast_def highest_issue_rows_iff)
  have B2: "\<exists>r' \<in> set (select_nowcast table q). nowcast_key r' = nowcast_key r"
    if "q_issues q = None" "q_as_of q = Some as_of" "r \<in> set table" "matches q r" "nc_issue r \<le> as_of"
    for r
  proof -
    from that have "r \<in> set (filter (\<lambda>r. nc_issue r \<le> as_of) (filter (matches q) table))" by simp
    from highest_exists [OF this] that(1,2) show ?thesis by (simp add: select_nowcast_def)
  qed
  have C1: "r \<in> set (select_nowcast table q)
         \<longleftrightarrow> r \<in> set table \<and> matches q r
             \<and> (\<forall>r' \<in> set table. nowcast_key r' = nowcast_key r \<longrightarrow> nc_issue r' \<le> nc_issue r)"
    if "q_issues q = None" "q_as_of q = None" for r
    using that matches_key [of _ r q]
    by (auto simp: select_nowcast_def highest_issue_rows_iff)
  have C2: "\<exists>r' \<in> set (select_nowcast table q). nowcast_key r' = nowcast_key r"
    if "q_issues q = None" "q_as_of q = None" "r \<in> set table" "matches q r" for r
  proof -
    from that have "r \<in> set (filter (matches q) table)" by simp
    from highest_exists [OF this] that(1,2) show ?thesis by (simp add: select_nowcast_def)
  qed
  have D: "r' = r"
    if n: "q_issues q = None" and u: "one_row_per_issue table"
      and r: "r \<in> set (select_nowcast table q)" and r': "r' \<in> set (select_nowcast table q)"
      and k: "nowcast_key r' = nowcast_key r" for r r'
  proof -
    obtain rows where sel: "select_nowcast table q = highest_issue_rows rows" and sub: "set rows \<subseteq> set table"
      using n by (cases "q_as_of q") (auto simp: select_nowcast_def)
    from r r' k have "r \<in> set rows" "r' \<in> set rows" "nc_issue r' \<le> nc_issue r" "nc_issue r \<le> nc_issue r'"
      by (auto simp: sel highest_issue_rows_iff)
    with sub u k show ?thesis unfolding one_row_per_issue_def by (meson order.antisym subsetD)
  qed
  from A B1 B2 C1 C2 D show ?thesis by blast
qed

text \<open>The three requests of \<^verbatim>\<open>test_query\<close> and their expected responses.\<close>

theorem nowcast_issue_selection_witness:
  "covidcast_nowcast test_table (test_query (Some [20200101]) None)
     = [\<lparr>res_signal = ''sig'', res_time_value = 20200101, res_geo_value = ''01001'',
         res_value = ''3.5'', res_issue = 20200101, res_lag = 2\<rparr>]
   \<and> covidcast_nowcast test_table (test_query None None)
     = [\<lparr>res_signal = ''sig'', res_time_value = 20200101, res_geo_value = ''01001'',
         res_value = ''1.5'', res_issue = 20200103, res_lag = 2\<rparr>]
   \<and> covidcast_nowcast test_table (test_query None (Some 20200101))
     = [\<lparr>res_signal = ''sig'', res_time_value = 20200101, res_geo_value = ''01001'',
         res_value = ''3.5'', res_issue = 20200101, res_lag = 2\<rparr>]
   \<and> test_row ''1.5'' 20200103 \<in> set (select_nowcast test_table (test_query None None))
   \<and> test_row ''2.5'' 20200102 \<notin> set (select_nowcast test_table (test_query None None))"
proof -
  have 1: "covidcast_nowcast test_table (test_query (Some [20200101]) None)
     = [\<lparr>res_signal = ''sig'', res_time_value = 20200101, res_geo_value = ''01001'',
         res_value = ''3.5'', res_issue = 20200101, res_lag = 2\<rparr>]"
    by (simp add: covidcast_nowcast_def select_nowcast_def test_table_def test_query_def test_row_def
        matches_def to_result_def)
  have 2: "covidcast_nowcast test_table (test_query None None)
     = [\<lparr>res_signal = ''sig'', res_time_value = 20200101, res_geo_value = ''01001'',
         res_value = ''1.5'', res_issue = 20200103, res_lag = 2\<rparr>]"
    by (simp add: covidcast_nowcast_def select_nowcast_def test_table_def test_query_def test_row_def
        matches_def to_result_def highest_issue_rows_def nowcast_key_def)
  have 3: "covidcast_nowcast test_table (test_query None (Some 20200101))
     = [\<lparr>res_signal = ''sig'', res_time_value = 20200101, res_geo_value = ''01001'',
         res_value = ''3.5'', res_issue = 20200101, res_lag = 2\<rparr>]"
    by (simp add: covidcast_nowcast_def select_nowcast_def test_table_def test_query_def test_row_def
        matches_def to_result_def highest_issue_rows_def nowcast_key_def)
  have q: "q_issues (test_query None None) = None \<and> q_as_of (test_query None None) = None"
    by (simp add: test_query_def)
  note T = nowcast_issue_selection [of "test_query None None" _ test_table, THEN conjunct2, THEN conjunct2,
      THEN conjunct1, rule_format, OF q, THEN conjunct1, rule_format]
  have 4: "test_row ''1.5'' 20200103 \<in> set (select_nowcast test_table (test_query None None))"
    unfolding T by (simp add: test_table_def test_query_def test_row_def matches_def nowcast_key_def)
  have 5: "test_row ''2.5'' 20200102 \<notin> set (select_nowcast test_table (test_query None None))"
    unfolding T by (simp add: test_table_def test_query_def test_row_def matches_def nowcast_key_def)
  from 1 2 3 4 5 show ?thesis by blast
qed

section \<open>Properties of the hospitalization acquisition\<close>

lemma get_max_issue_ge: "r \<in> set storage \<Longrightarrow> ts_issue r \<le> get_max_issue storage"
proof -
  assume r: "r \<in> set storage"
  then have "map ts_issue storage \<noteq> []" by auto
  then obtain m where m: "max_issue (map ts_issue storage) = Some m"
    by (cases "max_issue (map ts_issue storage)") (auto simp: max_issue_None)
  with r have "ts_issue r \<le> m" by (auto simp: max_issue_Some)
  with m show ?thesis by (simp add: get_max_issue_def)
qed

lemma upsert_issues: "ts_issue ` set (upsert storage r) = insert (ts_issue r) (ts_issue ` set storage)"
proof (cases "ts_key r \<in> set (map ts_key storage)")
  case True
  then obtain s where s: "s \<in> set storage" "ts_key s = ts_key r" by auto
  then have i: "ts_issue s = ts_issue r" by (simp add: ts_key_def)
  have "ts_issue (if ts_key x = ts_key r then r else x) = ts_issue x" for x
    by (simp add: ts_key_def)
  then have "map ts_issue (map (\<lambda>s. if ts_key s = ts_key r then r else s) storage) = map ts_issue storage"
    by (simp add: comp_def)
  then have "set (map ts_issue (upsert storage r)) = set (map ts_issue storage)"
    using True by (simp only: upsert_def if_True)
  then have "ts_issue ` set (upsert storage r) = ts_issue ` set storage"
    by simp
  moreover from s(1) i have "ts_issue r \<in> ts_issue ` set storage" by (metis imageI)
  ultimately show ?thesis by (simp add: insert_absorb)
next
  case False
  then show ?thesis by (simp add: upsert_def)
qed

lemma upsert_all_issues:
  "ts_issue ` set (upsert_all storage rs) = ts_issue ` set storage \<union> ts_issue ` set rs"
  by (induction rs arbitrary: storage) (auto simp: upsert_issues)

lemma issue_rows_issue: "r \<in> set (issue_rows up i) \<Longrightarrow> ts_issue r = i"
  by (auto simp: issue_rows_def stamp_def split: prod.splits)

lemma acquire_issues_mono:
  "ts_issue ` set storage \<subseteq> ts_issue ` set (acquire_issues up storage is)"
proof (induction "is" arbitrary: storage)
  case Nil
  show ?case by simp
next
  case (Cons i "is")
  from Cons.IH [of "upsert_all storage (issue_rows up i)"] show ?case
    by (auto simp: upsert_all_issues)
qed

lemma acquire_issues_has:
  "i \<in> set is \<Longrightarrow> issue_rows up i \<noteq> [] \<Longrightarrow> i \<in> ts_issue ` set (acquire_issues up storage is)"
proof (induction "is" arbitrary: storage)
  case Nil
  then show ?case by simp
next
  case (Cons j "is")
  show ?case
  proof (cases "i = j")
    case True
    from Cons.prems(2) obtain r where "r \<in> set (issue_rows up i)" by (cases "issue_rows up i") auto
    then have "i \<in> ts_issue ` set (issue_rows up i)" using issue_rows_issue by force
    then have "i \<in> ts_issue ` set (upsert_all storage (issue_rows up i))"
      by (simp add: upsert_all_issues)
    with True acquire_issues_mono [of "upsert_all storage (issue_rows up j)" up "is"]
    show ?thesis by auto
  next
    case False
    with Cons.prems have "i \<in> set is" by simp
    from Cons.IH [OF this Cons.prems(2)] show ?thesis by simp
  qed
qed

lemma new_issues_empty:
  "new_issues metadata mx = [] \<longleftrightarrow> (\<forall>m \<in> set metadata. md_issue m \<le> mx)"
proof -
  have "new_issues metadata mx = [] \<longleftrightarrow> set (new_issues metadata mx) = {}" by simp
  also have "\<dots> \<longleftrightarrow> (\<forall>m \<in> set metadata. md_issue m \<le> mx)"
    unfolding new_issues_def by (auto simp: not_less)
  finally show ?thesis .
qed

lemma set_new_issues: "set (new_issues metadata mx) = {i \<in> md_issue ` set metadata. mx < i}"
  by (auto simp: new_issues_def)

lemma issue_rows_nonempty:
  "m \<in> set (fetch_metadata up) \<Longrightarrow> fetch_dataset up (md_location m) \<noteq> [] \<Longrightarrow> issue_rows up (md_issue m) \<noteq> []"
  by (auto simp: issue_rows_def)

lemma upsert_keys:
  "set (map ts_key (upsert storage r)) = insert (ts_key r) (set (map ts_key storage))
   \<and> (distinct (map ts_key storage) \<longrightarrow> distinct (map ts_key (upsert storage r)))"
proof (cases "ts_key r \<in> set (map ts_key storage)")
  case True
  have "ts_key (if ts_key x = ts_key r then r else x) = ts_key x" for x by simp
  then have "map ts_key (map (\<lambda>s. if ts_key s = ts_key r then r else s) storage) = map ts_key storage"
    by (simp add: comp_def)
  then have "map ts_key (upsert storage r) = map ts_key storage"
    using True by (simp only: upsert_def if_True)
  with True show ?thesis by (simp add: insert_absorb)
next
  case False
  then show ?thesis by (simp add: upsert_def)
qed

lemma upsert_all_distinct:
  "distinct (map ts_key storage) \<Longrightarrow> distinct (map ts_key (upsert_all storage rs))"
  by (induction rs arbitrary: storage) (simp_all add: upsert_keys)

lemma acquire_issues_distinct:
  "distinct (map ts_key storage) \<Longrightarrow> distinct (map ts_key (acquire_issues up storage is))"
  by (induction "is" arbitrary: storage) (simp_all add: upsert_all_distinct)

lemma run_noop:
  assumes "\<forall>m \<in> set (fetch_metadata up). md_issue m \<le> get_max_issue storage"
  shows "run up storage = (False, storage)"
proof -
  from assms have "new_issues (fetch_metadata up) (get_max_issue storage) = []"
    by (simp add: new_issues_empty)
  then show ?thesis by (simp add: run_def)
qed

lemma run_acquires:
  assumes "m \<in> set (fetch_metadata up)" and "get_max_issue storage < md_issue m"
  shows "fst (run up storage)"
proof -
  from assms have "md_issue m \<in> set (new_issues (fetch_metadata up) (get_max_issue storage))"
    by (auto simp: set_new_issues)
  then have "new_issues (fetch_metadata up) (get_max_issue storage) \<noteq> []" by auto
  then show ?thesis by (simp add: run_def)
qed

lemma run_reaches_top:
  assumes m: "m \<in> set (fetch_metadata up)" and new: "get_max_issue storage < md_issue m"
    and top: "\<forall>m' \<in> set (fetch_metadata up). md_issue m' \<le> md_issue m"
    and rows: "fetch_dataset up (md_location m) \<noteq> []"
  shows "\<forall>m' \<in> set (fetch_metadata up). md_issue m' \<le> get_max_issue (snd (run up storage))"
proof -
  let ?is = "new_issues (fetch_metadata up) (get_max_issue storage)"
  from m new have "md_issue m \<in> set ?is" by (auto simp: set_new_issues)
  from acquire_issues_has [OF this issue_rows_nonempty [OF m rows], of storage]
  obtain r where "r \<in> set (acquire_issues up storage ?is)" "ts_issue r = md_issue m" by auto
  then have "md_issue m \<le> get_max_issue (snd (run up storage))"
    using get_max_issue_ge [of r "acquire_issues up storage ?is"] by (simp add: run_def Let_def)
  with top show ?thesis by fastforce
qed

text \<open>
  Claim C8. A run against upstream metadata with an issue newer than the stored
  maximum returns \<^verbatim>\<open>acquired = true\<close>. A run against upstream data none of whose
  issues is newer than the stored maximum returns \<^verbatim>\<open>acquired = false\<close> and leaves
  storage as it is. The second follows the first: when the newest upstream issue is
  newer than what is stored and one of its batches delivers a row, the first run
  returns true and the immediately repeated run on the same upstream data returns
  false with storage unchanged. No run creates a second row for a key (state, date,
  issue).
\<close>

theorem acquisition_idempotent:
  "((\<exists>m \<in> set (fetch_metadata up). get_max_issue storage < md_issue m) \<longrightarrow> fst (run up storage))
   \<and> ((\<forall>m \<in> set (fetch_metadata up). md_issue m \<le> get_max_issue storage) \<longrightarrow>
        run up storage = (False, storage))
   \<and> ((\<exists>m \<in> set (fetch_metadata up). get_max_issue storage < md_issue m
          \<and> (\<forall>m' \<in> set (fetch_metadata up). md_issue m' \<le> md_issue m)
          \<and> fetch_dataset up (md_location m) \<noteq> []) \<longrightarrow>
        fst (run up storage) \<and> run up (snd (run up storage)) = (False, snd (run up storage)))
   \<and> (distinct (map ts_key storage) \<longrightarrow> distinct (map ts_key (snd (run up storage))))"
proof -
  have 1: "fst (run up storage)"
    if "\<exists>m \<in> set (fetch_metadata up). get_max_issue storage < md_issue m"
    using that run_acquires by blast
  have 2: "run up storage = (False, storage)"
    if "\<forall>m \<in> set (fetch_metadata up). md_issue m \<le> get_max_issue storage"
    using that by (rule run_noop)
  have 3: "fst (run up storage) \<and> run up (snd (run up storage)) = (False, snd (run up storage))"
    if "\<exists>m \<in> set (fetch_metadata up). get_max_issue storage < md_issue m
          \<and> (\<forall>m' \<in> set (fetch_metadata up). md_issue m' \<le> md_issue m)
          \<and> fetch_dataset up (md_location m) \<noteq> []"
  proof -
    from that obtain m where m: "m \<in> set (fetch_metadata up)" "get_max_issue storage < md_issue m"
      "\<forall>m' \<in> set (fetch_metadata up). md_issue m' \<le> md_issue m" "fetch_dataset up (md_location m) \<noteq> []"
      by blast
    from run_acquires [OF m(1,2)] run_noop [OF run_reaches_top [OF m]] show ?thesis by simp
  qed
  have 4: "distinct (map ts_key (snd (run up storage)))" if "distinct (map ts_key storage)"
    using that by (simp add: run_def Let_def acquire_issues_distinct)
  from 1 2 3 4 show ?thesis by blast
qed

text \<open>The first and the second acquisition of \<^verbatim>\<open>test_acquire_dataset\<close>.\<close>

theorem acquisition_idempotent_witness:
  "fst (run sample_upstream [])
   \<and> run sample_upstream (snd (run sample_upstream [])) = (False, snd (run sample_upstream []))
   \<and> snd (run sample_upstream [])
       = [\<lparr>ts_state = ''WY'', ts_date = 20201209, ts_issue = 20210313, ts_metrics = 8\<rparr>,
          \<lparr>ts_state = ''WY'', ts_date = 20201209, ts_issue = 20210315, ts_metrics = 8\<rparr>]"
proof -
  let ?m = "\<lparr>md_issue = 20210315, md_location = ''rev2''\<rparr>"
  have h: "\<exists>m \<in> set (fetch_metadata sample_upstream). get_max_issue ([] :: int timeseries_record list) < md_issue m
          \<and> (\<forall>m' \<in> set (fetch_metadata sample_upstream). md_issue m' \<le> md_issue m)
          \<and> fetch_dataset sample_upstream (md_location m) \<noteq> []"
    by (intro bexI [of _ ?m]) (simp_all add: sample_upstream_def get_max_issue_def epoch_def)
  from acquisition_idempotent [of sample_upstream "[]", THEN conjunct2, THEN conjunct2, THEN conjunct1,
      rule_format, OF h]
  have 1: "fst (run sample_upstream [])
     \<and> run sample_upstream (snd (run sample_upstream [])) = (False, snd (run sample_upstream []))" .
  have 2: "snd (run sample_upstream [])
       = [\<lparr>ts_state = ''WY'', ts_date = 20201209, ts_issue = 20210313, ts_metrics = 8\<rparr>,
          \<lparr>ts_state = ''WY'', ts_date = 20201209, ts_issue = 20210315, ts_metrics = 8\<rparr>]"
    by code_simp
  from 1 2 show ?thesis by blast
qed

end
